theory Spec2Isabelle
  imports Complex_Main
begin

section \<open>Tool categories and tool events (extract\_micro\_examples.py)\<close>

text \<open>
  \<^verbatim>\<open>TOOL_CATEGORIES\<close> is a Python dict from a category name to the list of tool names of
  that category. A dict iterates in insertion order, so it is an association list here.
\<close>

definition TOOL_CATEGORIES :: "(string \<times> string list) list" where
  "TOOL_CATEGORIES =
     [(''exploration'', [''Read'', ''Glob'', ''Grep'', ''WebSearch'', ''WebFetch'', ''LSP'']),
      (''modification'', [''Write'', ''Edit'', ''MultiEdit'', ''NotebookEdit'']),
      (''execution'', [''Bash'', ''Task'', ''TaskOutput'', ''KillShell'']),
      (''planning'', [''TodoWrite'', ''EnterPlanMode'', ''ExitPlanMode'']),
      (''interaction'', [''AskUserQuestion''])]"

text \<open>
  The loop \<^verbatim>\<open>for category, tools in TOOL_CATEGORIES.items()\<close> of \<^verbatim>\<open>get_tool_category\<close>:
  the first category whose list holds the name is returned, \<^verbatim>\<open>"other"\<close> after the loop.
\<close>

fun lookup_category :: "(string \<times> string list) list \<Rightarrow> string \<Rightarrow> string" where
  "lookup_category [] tool = ''other''"
| "lookup_category ((cat, tools) # rest) tool =
     (if tool \<in> set tools then cat else lookup_category rest tool)"

definition get_tool_category :: "string \<Rightarrow> string" where
  "get_tool_category tool = lookup_category TOOL_CATEGORIES tool"

text \<open>
  The local dict \<^verbatim>\<open>tool_categories\<close> of \<^verbatim>\<open>analyze_tool_sequencing\<close> in advanced\_analysis.py
  is a second table, with a list for \<^verbatim>\<open>advanced\<close>. It is used by that method only;
  \<^verbatim>\<open>get_tool_category\<close> does not read it.
\<close>

definition tool_categories :: "(string \<times> string list) list" where
  "tool_categories =
     [(''exploration'', [''Read'', ''Grep'', ''Glob'', ''WebSearch'', ''WebFetch'']),
      (''modification'', [''Write'', ''Edit'', ''MultiEdit'', ''NotebookEdit'']),
      (''execution'', [''Bash'', ''Task'', ''BashOutput'', ''TaskOutput'']),
      (''planning'', [''TodoWrite'', ''EnterPlanMode'', ''ExitPlanMode'']),
      (''interaction'', [''AskUserQuestion'', ''KillShell'']),
      (''advanced'', [''AgentOutputTool'', ''mcp__playwright__browser_navigate'',
                      ''mcp__playwright__browser_press_key''])]"

text \<open>The dataclass \<^verbatim>\<open>ToolEvent\<close>; \<^verbatim>\<open>model\<close> and \<^verbatim>\<open>file_path\<close> may be \<^verbatim>\<open>None\<close>.\<close>

record ToolEvent =
  tool_name :: string
  category :: string
  timestamp :: string
  input_preview :: string
  success :: bool
  model :: "string option"
  file_path :: "string option"

section \<open>Pattern detectors (extract\_micro\_examples.py)\<close>

subsection \<open>Execute, explore, modify\<close>

text \<open>
  The innermost loop \<^verbatim>\<open>for k in range(j + 1, min(j + 5, len(events)))\<close>: it stops at the
  first modification event. The result is the index found, if any.
\<close>

fun eem_find_k :: "ToolEvent list \<Rightarrow> nat list \<Rightarrow> nat option" where
  "eem_find_k events [] = None"
| "eem_find_k events (k # ks) =
     (if category (events ! k) = ''modification'' then Some k else eem_find_k events ks)"

text \<open>
  The loop \<^verbatim>\<open>for j in range(i + 1, min(i + 5, len(events)))\<close>: at the first exploration
  event it runs the inner loop and then breaks, whether the inner loop found something or
  not.
\<close>

fun eem_find_j :: "ToolEvent list \<Rightarrow> nat list \<Rightarrow> nat option" where
  "eem_find_j events [] = None"
| "eem_find_j events (j # js) =
     (if category (events ! j) = ''exploration''
      then eem_find_k events [j + 1 ..< min (j + 5) (length events)]
      else eem_find_j events js)"

lemma eem_find_k_mem: "eem_find_k events ks = Some k \<Longrightarrow> k \<in> set ks"
  by (induction ks) (auto split: if_splits)

lemma eem_find_j_gt:
  "eem_find_j events js = Some k \<Longrightarrow> \<exists>j \<in> set js. j < k \<and> k < length events"
  by (induction js) (auto split: if_splits dest!: eem_find_k_mem)

text \<open>
  The loop \<^verbatim>\<open>while i < len(events) - 2\<close>. The comparison is one of Python integers, where
  \<^verbatim>\<open>len(events) - 2\<close> is negative for a short list. On a match the code sets \<^verbatim>\<open>i = k\<close>
  and the \<^verbatim>\<open>i += 1\<close> that ends every iteration makes it \<^verbatim>\<open>k + 1\<close>.
\<close>

function eem_loop :: "ToolEvent list \<Rightarrow> nat \<Rightarrow> (nat \<times> nat) list \<Rightarrow> (nat \<times> nat) list" where
  "eem_loop events i cycles =
     (if int i < int (length events) - 2 then
        (if category (events ! i) = ''execution'' then
           (case eem_find_j events [i + 1 ..< min (i + 5) (length events)] of
              Some k \<Rightarrow> eem_loop events (k + 1) (cycles @ [(i, k + 1)])
            | None \<Rightarrow> eem_loop events (i + 1) cycles)
         else eem_loop events (i + 1) cycles)
      else cycles)"
  by pat_completeness auto
termination
proof (relation "measure (\<lambda>(events, i, cycles). length events - i)")
  fix events :: "ToolEvent list" and i :: nat and cycles :: "(nat \<times> nat) list" and k :: nat
  assume "int i < int (length events) - 2"
    and "eem_find_j events [i + 1 ..< min (i + 5) (length events)] = Some k"
  then have "i < k" "k < length events"
    by (auto dest!: eem_find_j_gt)
  then show "((events, k + 1, cycles @ [(i, k + 1)]), (events, i, cycles))
      \<in> measure (\<lambda>(events, i, cycles). length events - i)"
    by simp
qed auto

declare eem_loop.simps [simp del]

definition find_execute_explore_modify_cycles :: "ToolEvent list \<Rightarrow> (nat \<times> nat) list" where
  "find_execute_explore_modify_cycles events = eem_loop events 0 []"

subsection \<open>Correction sequences\<close>

text \<open>
  \<^verbatim>\<open>file_edits = defaultdict(list)\<close> keeps its keys in the order of their first insertion;
  \<^verbatim>\<open>file_edits[path].append(i)\<close> is \<open>dict_append\<close>.
\<close>

fun dict_append :: "(string \<times> nat list) list \<Rightarrow> string \<Rightarrow> nat \<Rightarrow> (string \<times> nat list) list" where
  "dict_append [] key i = [(key, [i])]"
| "dict_append ((k, v) # rest) key i =
     (if k = key then (k, v @ [i]) # rest else (k, v) # dict_append rest key i)"

text \<open>\<^verbatim>\<open>event.file_path\<close> as a condition: neither \<^verbatim>\<open>None\<close> nor the empty string.\<close>

definition truthy :: "string option \<Rightarrow> bool" where
  "truthy v = (case v of None \<Rightarrow> False | Some s \<Rightarrow> s \<noteq> [])"

fun collect_file_edits ::
  "ToolEvent list \<Rightarrow> nat list \<Rightarrow> (string \<times> nat list) list \<Rightarrow> (string \<times> nat list) list" where
  "collect_file_edits events [] file_edits = file_edits"
| "collect_file_edits events (i # is) file_edits =
     (if category (events ! i) = ''modification'' \<and> truthy (file_path (events ! i))
      then collect_file_edits events is (dict_append file_edits (the (file_path (events ! i))) i)
      else collect_file_edits events is file_edits)"

text \<open>The loop \<^verbatim>\<open>for j in range(len(indices) - 1)\<close> over one file's indices.\<close>

fun close_pairs :: "nat list \<Rightarrow> nat list \<Rightarrow> (nat \<times> nat) list \<Rightarrow> (nat \<times> nat) list" where
  "close_pairs indices [] corrections = corrections"
| "close_pairs indices (j # js) corrections =
     (if int (indices ! (j + 1)) - int (indices ! j) \<le> 10
      then close_pairs indices js (corrections @ [(indices ! j, indices ! (j + 1) + 1)])
      else close_pairs indices js corrections)"

fun correction_loop :: "(string \<times> nat list) list \<Rightarrow> (nat \<times> nat) list \<Rightarrow> (nat \<times> nat) list" where
  "correction_loop [] corrections = corrections"
| "correction_loop ((path, indices) # rest) corrections =
     (if length indices \<ge> 2
      then correction_loop rest (close_pairs indices [0 ..< length indices - 1] corrections)
      else correction_loop rest corrections)"

definition find_correction_sequences :: "ToolEvent list \<Rightarrow> (nat \<times> nat) list" where
  "find_correction_sequences events =
     correction_loop (collect_file_edits events [0 ..< length events] []) []"

subsection \<open>Bash retries\<close>

text \<open>The loop \<^verbatim>\<open>for j in range(i + 1, min(i + 5, len(events)))\<close>, left at the first Bash event.\<close>

fun bash_find_j :: "ToolEvent list \<Rightarrow> nat list \<Rightarrow> nat option" where
  "bash_find_j events [] = None"
| "bash_find_j events (j # js) =
     (if tool_name (events ! j) = ''Bash'' then Some j else bash_find_j events js)"

text \<open>The loop \<^verbatim>\<open>for i, event in enumerate(events)\<close>, where \<^verbatim>\<open>event\<close> is \<^verbatim>\<open>events[i]\<close>.\<close>

fun bash_retry_loop :: "ToolEvent list \<Rightarrow> nat list \<Rightarrow> (nat \<times> nat) list \<Rightarrow> (nat \<times> nat) list" where
  "bash_retry_loop events [] retries = retries"
| "bash_retry_loop events (i # is) retries =
     (if tool_name (events ! i) = ''Bash'' \<and> \<not> success (events ! i) then
        (case bash_find_j events [i + 1 ..< min (i + 5) (length events)] of
           Some j \<Rightarrow> bash_retry_loop events is (retries @ [(i, j + 1)])
         | None \<Rightarrow> bash_retry_loop events is retries)
      else bash_retry_loop events is retries)"

definition find_bash_retry_sequences :: "ToolEvent list \<Rightarrow> (nat \<times> nat) list" where
  "find_bash_retry_sequences events = bash_retry_loop events [0 ..< length events] []"

section \<open>Transcript records and the record reader\<close>

text \<open>
  A transcript line decodes to a JSON object. The model keeps the keys the code reads, typed
  as the transcript format has them: \<^verbatim>\<open>type\<close>, \<^verbatim>\<open>timestamp\<close> and \<^verbatim>\<open>message\<close> of an entry;
  \<^verbatim>\<open>role\<close>, \<^verbatim>\<open>model\<close> and \<^verbatim>\<open>content\<close> of a message; the content is a string or a list of
  content items, each a JSON object discriminated by its \<^verbatim>\<open>type\<close>. A tool input is
  \<open>Some d\<close> when it is a dict (\<open>d\<close> lists its string-valued arguments; a missing
  \<^verbatim>\<open>input\<close> key is \<open>Some []\<close>, the default \<^verbatim>\<open>{}\<close>) and \<open>None\<close> when it is not a dict.
  The name of a tool use is the value after the default \<^verbatim>\<open>""\<close>, the error flag of a
  tool result the value after the default \<^verbatim>\<open>False\<close>.
\<close>

type_synonym json_dict = "(string \<times> string) list"

datatype content_item =
    ToolUse string "json_dict option"
  | ToolResult bool
  | TextItem string
  | OtherItem

datatype content = ContentStr string | ContentList "content_item list" | ContentOther

record message =
  msg_role :: "string option"
  msg_content :: content
  msg_model :: "string option"

record entry =
  entry_type :: "string option"
  entry_message :: "message option"
  entry_timestamp :: string

text \<open>\<^verbatim>\<open>entry.get("message", {})\<close>: an empty dict has no role, no model and the default content \<^verbatim>\<open>[]\<close>.\<close>

definition get_message :: "entry \<Rightarrow> message" where
  "get_message e =
     (case entry_message e of
        None \<Rightarrow> \<lparr>msg_role = None, msg_content = ContentList [], msg_model = None\<rparr>
      | Some m \<Rightarrow> m)"

text \<open>
  The functions of Python's library that the code calls are parameters of the model:
  \<^verbatim>\<open>str.strip\<close>, \<^verbatim>\<open>json.loads\<close> (\<open>None\<close> when it raises \<^verbatim>\<open>JSONDecodeError\<close>), \<^verbatim>\<open>str.lower\<close>,
  \<^verbatim>\<open>re.search\<close> (pattern, text; whether there is a match), \<^verbatim>\<open>re.sub\<close> (pattern, replacement,
  text) and \<^verbatim>\<open>Path(p).name\<close>.
\<close>

record lib =
  str_strip :: "string \<Rightarrow> string"
  json_loads :: "string \<Rightarrow> entry option"
  str_lower :: "string \<Rightarrow> string"
  re_search :: "string \<Rightarrow> string \<Rightarrow> bool"
  re_sub :: "string \<Rightarrow> string \<Rightarrow> string \<Rightarrow> string"
  path_name :: "string \<Rightarrow> string"

text \<open>
  \<^verbatim>\<open>parse_jsonl\<close> (the same in both classes) on a file whose lines are all delivered and
  decode to an object or not at all: blank lines and lines that do not decode are skipped.
  Such a file is the list of its lines, or \<open>None\<close> when it cannot be opened: the outer
  \<^verbatim>\<open>except Exception: pass\<close> then ends the generator without a record. The reader with the
  other outcomes of a line follows, \<open>parse_jsonl_raw\<close>.
\<close>

fun parse_lines :: "lib \<Rightarrow> string list \<Rightarrow> entry list" where
  "parse_lines L [] = []"
| "parse_lines L (line # rest) =
     (let line' = str_strip L line in
      if line' \<noteq> [] then
        (case json_loads L line' of
           Some e \<Rightarrow> e # parse_lines L rest
         | None \<Rightarrow> parse_lines L rest)
      else parse_lines L rest)"

definition parse_jsonl :: "lib \<Rightarrow> string list option \<Rightarrow> entry list" where
  "parse_jsonl L file = (case file of None \<Rightarrow> [] | Some lines \<Rightarrow> parse_lines L lines)"

text \<open>
  The reader with every outcome of its two library calls. An iteration of
  \<^verbatim>\<open>for line in f\<close> delivers a line, or raises \<^verbatim>\<open>UnicodeDecodeError\<close> when bytes of the file
  are not UTF-8; the decoder reads the file in blocks, so the exception can come before
  lines that precede the bad bytes have been delivered. \<^verbatim>\<open>json.loads\<close> returns a value, which
  is an object or something else (a number, a string, a list, \<^verbatim>\<open>null\<close>, or the \<^verbatim>\<open>NaN\<close> that it
  accepts), or raises \<^verbatim>\<open>JSONDecodeError\<close>, or raises another exception (\<^verbatim>\<open>RecursionError\<close> on
  deeply nested input). \<^verbatim>\<open>except json.JSONDecodeError: continue\<close> skips the line. Every other
  exception reaches the outer \<^verbatim>\<open>except Exception: pass\<close>, which ends the generator: the
  records yielded so far stay and the rest of the file is not read.

  \<^verbatim>\<open>parse_jsonl\<close> above is this reader on a file whose lines are all delivered and each
  decode to an object or raise \<^verbatim>\<open>JSONDecodeError\<close>.
\<close>

datatype json_value = JsonObject entry | JsonOther

datatype loads_result = Loaded json_value | JSONDecodeError | OtherException

datatype read_step = Line string | UnicodeDecodeError

fun parse_lines_raw :: "lib \<Rightarrow> (string \<Rightarrow> loads_result) \<Rightarrow> read_step list \<Rightarrow> json_value list" where
  "parse_lines_raw L loads [] = []"
| "parse_lines_raw L loads (UnicodeDecodeError # rest) = []"
| "parse_lines_raw L loads (Line line # rest) =
     (let line' = str_strip L line in
      if line' \<noteq> [] then
        (case loads line' of
           Loaded v \<Rightarrow> v # parse_lines_raw L loads rest
         | JSONDecodeError \<Rightarrow> parse_lines_raw L loads rest
         | OtherException \<Rightarrow> [])
      else parse_lines_raw L loads rest)"

definition parse_jsonl_raw ::
  "lib \<Rightarrow> (string \<Rightarrow> loads_result) \<Rightarrow> read_step list option \<Rightarrow> json_value list" where
  "parse_jsonl_raw L loads file =
     (case file of None \<Rightarrow> [] | Some steps \<Rightarrow> parse_lines_raw L loads steps)"

text \<open>
  The loops over the records call \<^verbatim>\<open>entry.get\<close> first; on a record that is not an object
  this raises \<^verbatim>\<open>AttributeError\<close>, which nothing catches.
\<close>

datatype py_error = AttributeError

section \<open>Event extractor (extract\_micro\_examples.py)\<close>

definition dict_get :: "json_dict \<Rightarrow> string \<Rightarrow> string \<Rightarrow> string" where
  "dict_get d key dflt = (case map_of d key of Some v \<Rightarrow> v | None \<Rightarrow> dflt)"

text \<open>Python's \<^verbatim>\<open>a or b\<close> on values that are \<^verbatim>\<open>None\<close> or strings.\<close>

definition py_or :: "string option \<Rightarrow> string option \<Rightarrow> string option" where
  "py_or a b = (if truthy a then a else b)"

text \<open>\<^verbatim>\<open>tool_input.get("file_path") or tool_input.get("path")\<close>, \<^verbatim>\<open>None\<close> when the input is no dict.\<close>

definition file_path_val :: "json_dict option \<Rightarrow> string option" where
  "file_path_val tool_input =
     (case tool_input of
        None \<Rightarrow> None
      | Some d \<Rightarrow> py_or (map_of d ''file_path'') (map_of d ''path''))"

definition create_input_preview :: "lib \<Rightarrow> string \<Rightarrow> json_dict option \<Rightarrow> string" where
  "create_input_preview L name tool_input =
     (case tool_input of
        None \<Rightarrow> []
      | Some d \<Rightarrow>
          if name = ''Bash'' then
            take 100 (re_sub L ''/home/[^/]+'' ''/home/user'' (dict_get d ''command'' []))
          else if name = ''Read'' then ''Read: '' @ path_name L (dict_get d ''file_path'' [])
          else if name \<in> set [''Edit'', ''Write''] then
            name @ '': '' @ path_name L (dict_get d ''file_path'' [])
          else if name = ''Grep'' then ''Grep: '' @ take 50 (dict_get d ''pattern'' [])
          else if name = ''Glob'' then ''Glob: '' @ dict_get d ''pattern'' []
          else [])"

text \<open>
  One content item of \<^verbatim>\<open>extract_tool_events\<close>. A tool use appends an event; a tool result
  sets \<^verbatim>\<open>events[-1].success\<close> when \<^verbatim>\<open>events\<close> is not empty. Every event object is in the
  list once, so the assignment is an update of the last position.
\<close>

definition extract_item ::
  "lib \<Rightarrow> string \<Rightarrow> string option \<Rightarrow> ToolEvent list \<Rightarrow> content_item \<Rightarrow> ToolEvent list" where
  "extract_item L ts current_model events item =
     (case item of
        ToolUse name tool_input \<Rightarrow>
          events @ [\<lparr>tool_name = name, category = get_tool_category name, timestamp = ts,
                     input_preview = create_input_preview L name tool_input, success = True,
                     model = current_model, file_path = file_path_val tool_input\<rparr>]
      | ToolResult is_err \<Rightarrow>
          (if events \<noteq> []
           then events[length events - 1 := (events ! (length events - 1))\<lparr>success := \<not> is_err\<rparr>]
           else events)
      | _ \<Rightarrow> events)"

definition extract_entry ::
  "lib \<Rightarrow> ToolEvent list \<times> string option \<Rightarrow> entry \<Rightarrow> ToolEvent list \<times> string option" where
  "extract_entry L st e =
     (if entry_type e = Some ''summary'' then st
      else
        let msg = get_message e;
            ts = entry_timestamp e;
            current_model = (if truthy (msg_model msg) then msg_model msg else snd st)
        in (case msg_content msg of
              ContentList items \<Rightarrow> (foldl (extract_item L ts current_model) (fst st) items, current_model)
            | _ \<Rightarrow> (fst st, current_model)))"

definition extract_tool_events :: "lib \<Rightarrow> string list option \<Rightarrow> ToolEvent list" where
  "extract_tool_events L file = fst (foldl (extract_entry L) ([], None) (parse_jsonl L file))"

text \<open>
  \<^verbatim>\<open>extract_tool_events\<close> on the records of the reader in full: the loop above on the
  objects, \<^verbatim>\<open>AttributeError\<close> at the first record that is not an object.
\<close>

fun extract_values ::
  "lib \<Rightarrow> ToolEvent list \<times> string option \<Rightarrow> json_value list \<Rightarrow>
   py_error + ToolEvent list \<times> string option" where
  "extract_values L st [] = Inr st"
| "extract_values L st (JsonObject e # rest) = extract_values L (extract_entry L st e) rest"
| "extract_values L st (JsonOther # rest) = Inl AttributeError"

definition extract_tool_events_raw ::
  "lib \<Rightarrow> (string \<Rightarrow> loads_result) \<Rightarrow> read_step list option \<Rightarrow> py_error + ToolEvent list" where
  "extract_tool_events_raw L loads file =
     (case extract_values L ([], None) (parse_jsonl_raw L loads file) of
        Inl err \<Rightarrow> Inl err
      | Inr st \<Rightarrow> Inr (fst st))"

section \<open>Verification analyzer (analyze\_verification\_patterns.py)\<close>

text \<open>
  Python's floats are IEEE doubles. The model computes in the rationals and applies a
  rounding function \<open>rnd\<close> after every floating-point operation and to every decimal
  literal: \<open>rnd = (\<lambda>x. x)\<close> is exact arithmetic, \<open>rnd = round_f64\<close> below is the
  double arithmetic of the implementation.
\<close>

definition REJECTION_KEYWORDS :: "string list" where
  "REJECTION_KEYWORDS =
     map (\<lambda>w. [CHR 0x5C, CHR ''b''] @ w @ [CHR 0x5C, CHR ''b''])
       [''no'', ''wrong'', ''incorrect'', ''try again'', ''fix'', ''undo'', ''revert'',
        ''not what i'', ''that's not'', ''actually'', ''instead'', ''don't'', ''stop'',
        ''cancel'', ''error'', ''failed'', ''broke'']"

text \<open>The dataclass \<^verbatim>\<open>VerificationMetrics\<close> (Python integers) and its four rate properties.\<close>

record VerificationMetrics =
  total_tool_uses :: int
  tool_errors :: int
  bash_failures :: int
  bash_retries :: int
  consecutive_edits_same_file :: int
  user_rejection_messages :: int
  total_user_messages :: int

definition error_rate :: "(rat \<Rightarrow> rat) \<Rightarrow> VerificationMetrics \<Rightarrow> rat" where
  "error_rate rnd m =
     (if total_tool_uses m > 0 then rnd (of_int (tool_errors m) / of_int (total_tool_uses m)) else 0)"

definition bash_failure_rate :: "(rat \<Rightarrow> rat) \<Rightarrow> VerificationMetrics \<Rightarrow> rat" where
  "bash_failure_rate rnd m =
     (if total_tool_uses m > 0 then rnd (of_int (bash_failures m) / of_int (total_tool_uses m)) else 0)"

definition correction_rate :: "(rat \<Rightarrow> rat) \<Rightarrow> VerificationMetrics \<Rightarrow> rat" where
  "correction_rate rnd m =
     (if total_tool_uses m > 0
      then rnd (of_int (consecutive_edits_same_file m) / of_int (total_tool_uses m)) else 0)"

definition user_rejection_rate :: "(rat \<Rightarrow> rat) \<Rightarrow> VerificationMetrics \<Rightarrow> rat" where
  "user_rejection_rate rnd m =
     (if total_user_messages m > 0
      then rnd (of_int (user_rejection_messages m) / of_int (total_user_messages m)) else 0)"

text \<open>
  The dict \<^verbatim>\<open>session_metrics\<close> of \<^verbatim>\<open>analyze_session\<close>; its keys carry the prefix \<open>sm_\<close>
  here, since three of them are also fields of \<^verbatim>\<open>VerificationMetrics\<close>.
\<close>

record SessionMetrics =
  sm_tool_uses :: int
  sm_tool_errors :: int
  sm_bash_failures :: int
  sm_bash_retries :: int
  sm_consecutive_edits :: int
  sm_user_rejections :: int
  sm_user_messages :: int

text \<open>
  The state of one run of \<^verbatim>\<open>analyze_session\<close>: \<^verbatim>\<open>self.metrics\<close>, the session dict and the
  two local variables. The example lists of \<^verbatim>\<open>self.examples\<close> are written and never read by
  the counting code; they are left out.
\<close>

record analysis =
  metrics :: VerificationMetrics
  session :: SessionMetrics
  recent_tools :: "(string \<times> string option \<times> bool \<times> nat) list"
  recent_bash_failed :: bool

definition py_join :: "string \<Rightarrow> string list \<Rightarrow> string" where
  "py_join sep xs = (case xs of [] \<Rightarrow> [] | x # rest \<Rightarrow> foldl (\<lambda>acc y. acc @ sep @ y) x rest)"

fun item_texts :: "content_item list \<Rightarrow> string list" where
  "item_texts [] = []"
| "item_texts (TextItem t # rest) = t # item_texts rest"
| "item_texts (_ # rest) = item_texts rest"

definition extract_text :: "content \<Rightarrow> string" where
  "extract_text c =
     (case c of
        ContentStr s \<Rightarrow> s
      | ContentList items \<Rightarrow> py_join '' '' (item_texts items)
      | ContentOther \<Rightarrow> [])"

definition contains_rejection :: "lib \<Rightarrow> string \<Rightarrow> bool" where
  "contains_rejection L text =
     (let text_lower = str_lower L text in
      list_ex (\<lambda>pattern. re_search L pattern text_lower) REJECTION_KEYWORDS)"

definition on_user_message :: "lib \<Rightarrow> analysis \<Rightarrow> content \<Rightarrow> analysis" where
  "on_user_message L st c =
     (let st1 = st\<lparr>session := (session st)\<lparr>sm_user_messages := sm_user_messages (session st) + 1\<rparr>,
                    metrics := (metrics st)\<lparr>total_user_messages := total_user_messages (metrics st) + 1\<rparr>\<rparr>
      in if contains_rejection L (extract_text c)
         then st1\<lparr>session := (session st1)\<lparr>sm_user_rejections := sm_user_rejections (session st1) + 1\<rparr>,
                  metrics := (metrics st1)\<lparr>user_rejection_messages :=
                                user_rejection_messages (metrics st1) + 1\<rparr>\<rparr>
         else st1)"

definition EDIT_TOOLS :: "string list" where
  "EDIT_TOOLS = [''Edit'', ''Write'', ''MultiEdit'']"

text \<open>\<^verbatim>\<open>recent_tools[-5:]\<close>: the last five elements, or all of a shorter list.\<close>

definition last5 :: "'a list \<Rightarrow> 'a list" where
  "last5 xs = drop (length xs - 5) xs"

text \<open>
  The loop over \<^verbatim>\<open>reversed(recent_tools[-5:])\<close>: it increments the two counters at the
  first earlier edit of the same path and breaks, so the result is whether there is one.
\<close>

fun scan_recent :: "string option \<Rightarrow> (string \<times> string option \<times> bool \<times> nat) list \<Rightarrow> bool" where
  "scan_recent fp [] = False"
| "scan_recent fp ((prev_tool, prev_path, prev_success, prev_idx) # rest) =
     (if prev_tool \<in> set EDIT_TOOLS \<and> prev_path = fp then True else scan_recent fp rest)"

definition on_tool_use :: "analysis \<Rightarrow> string \<Rightarrow> json_dict option \<Rightarrow> analysis" where
  "on_tool_use st name tool_input =
     (let st1 = st\<lparr>session := (session st)\<lparr>sm_tool_uses := sm_tool_uses (session st) + 1\<rparr>,
                    metrics := (metrics st)\<lparr>total_tool_uses := total_tool_uses (metrics st) + 1\<rparr>\<rparr>;
          fp = file_path_val tool_input;
          st2 = (if name = ''Bash'' \<and> recent_bash_failed st1
                 then st1\<lparr>session := (session st1)\<lparr>sm_bash_retries := sm_bash_retries (session st1) + 1\<rparr>,
                          metrics := (metrics st1)\<lparr>bash_retries := bash_retries (metrics st1) + 1\<rparr>,
                          recent_bash_failed := False\<rparr>
                 else st1);
          st3 = (if name \<in> set EDIT_TOOLS \<and> truthy fp \<and> scan_recent fp (rev (last5 (recent_tools st2)))
                 then st2\<lparr>session := (session st2)\<lparr>sm_consecutive_edits :=
                                         sm_consecutive_edits (session st2) + 1\<rparr>,
                          metrics := (metrics st2)\<lparr>consecutive_edits_same_file :=
                                         consecutive_edits_same_file (metrics st2) + 1\<rparr>\<rparr>
                 else st2)
      in st3\<lparr>recent_tools := recent_tools st3 @ [(name, fp, True, length (recent_tools st3))]\<rparr>)"

definition on_tool_result :: "analysis \<Rightarrow> bool \<Rightarrow> analysis" where
  "on_tool_result st is_err =
     (if is_err then
        (let st1 = st\<lparr>session := (session st)\<lparr>sm_tool_errors := sm_tool_errors (session st) + 1\<rparr>,
                       metrics := (metrics st)\<lparr>tool_errors := tool_errors (metrics st) + 1\<rparr>\<rparr>
         in if recent_tools st1 \<noteq> [] \<and> fst (last (recent_tools st1)) = ''Bash''
            then st1\<lparr>session := (session st1)\<lparr>sm_bash_failures := sm_bash_failures (session st1) + 1\<rparr>,
                     metrics := (metrics st1)\<lparr>bash_failures := bash_failures (metrics st1) + 1\<rparr>,
                     recent_bash_failed := True\<rparr>
            else st1)
      else st)"

definition analyze_item :: "analysis \<Rightarrow> content_item \<Rightarrow> analysis" where
  "analyze_item st item =
     (case item of
        ToolUse name tool_input \<Rightarrow> on_tool_use st name tool_input
      | ToolResult is_err \<Rightarrow> on_tool_result st is_err
      | _ \<Rightarrow> st)"

definition analyze_entry :: "lib \<Rightarrow> analysis \<Rightarrow> entry \<Rightarrow> analysis" where
  "analyze_entry L st e =
     (if entry_type e = Some ''summary'' then st
      else
        let msg = get_message e in
        if msg_role msg = Some ''user'' then on_user_message L st (msg_content msg)
        else if msg_role msg = Some ''assistant'' then
          (case msg_content msg of
             ContentList items \<Rightarrow> foldl analyze_item st items
           | _ \<Rightarrow> st)
        else st)"

definition zero_session :: SessionMetrics where
  "zero_session = \<lparr>sm_tool_uses = 0, sm_tool_errors = 0, sm_bash_failures = 0, sm_bash_retries = 0,
     sm_consecutive_edits = 0, sm_user_rejections = 0, sm_user_messages = 0\<rparr>"

text \<open>
  \<^verbatim>\<open>analyze_session\<close> takes \<^verbatim>\<open>self.metrics\<close> and the file; it returns the session dict and
  leaves the updated \<^verbatim>\<open>self.metrics\<close>.
\<close>

definition analyze_session ::
  "lib \<Rightarrow> VerificationMetrics \<Rightarrow> string list option \<Rightarrow> SessionMetrics \<times> VerificationMetrics" where
  "analyze_session L m file =
     (let st = foldl (analyze_entry L)
                 \<lparr>metrics = m, session = zero_session, recent_tools = [], recent_bash_failed = False\<rparr>
                 (parse_jsonl L file)
      in (session st, metrics st))"

text \<open>
  \<^verbatim>\<open>analyze_session\<close> on the records of the reader in full: the loop above on the objects,
  \<^verbatim>\<open>AttributeError\<close> at the first record that is not an object.
\<close>

fun analyze_values :: "lib \<Rightarrow> analysis \<Rightarrow> json_value list \<Rightarrow> py_error + analysis" where
  "analyze_values L st [] = Inr st"
| "analyze_values L st (JsonObject e # rest) = analyze_values L (analyze_entry L st e) rest"
| "analyze_values L st (JsonOther # rest) = Inl AttributeError"

definition analyze_session_raw ::
  "lib \<Rightarrow> (string \<Rightarrow> loads_result) \<Rightarrow> VerificationMetrics \<Rightarrow> read_step list option \<Rightarrow>
   py_error + SessionMetrics \<times> VerificationMetrics" where
  "analyze_session_raw L loads m file =
     (case analyze_values L
             \<lparr>metrics = m, session = zero_session, recent_tools = [], recent_bash_failed = False\<rparr>
             (parse_jsonl_raw L loads file) of
        Inl err \<Rightarrow> Inl err
      | Inr st \<Rightarrow> Inr (session st, metrics st))"

text \<open>\<^verbatim>\<open>"agent-" in file_path.name\<close>: a substring test.\<close>

fun str_contains :: "string \<Rightarrow> string \<Rightarrow> bool" where
  "str_contains sub [] = (sub = [])"
| "str_contains sub (c # cs) = (take (length sub) (c # cs) = sub \<or> str_contains sub cs)"

definition zero_metrics :: VerificationMetrics where
  "zero_metrics = \<lparr>total_tool_uses = 0, tool_errors = 0, bash_failures = 0, bash_retries = 0,
     consecutive_edits_same_file = 0, user_rejection_messages = 0, total_user_messages = 0\<rparr>"

text \<open>
  The loop of \<^verbatim>\<open>run\<close> over the files, each a name and its lines: agent files are skipped, the
  others update \<^verbatim>\<open>self.metrics\<close>. \<^verbatim>\<open>run_metrics\<close> is \<^verbatim>\<open>self.metrics\<close> at the end of \<^verbatim>\<open>run\<close> on a new
  analyzer; \<^verbatim>\<open>limit\<close> is \<^verbatim>\<open>None\<close> or a natural number, and \<^verbatim>\<open>if limit\<close> is false for both
  \<^verbatim>\<open>None\<close> and 0.
\<close>

fun run_loop :: "lib \<Rightarrow> VerificationMetrics \<Rightarrow> (string \<times> string list option) list \<Rightarrow> VerificationMetrics" where
  "run_loop L m [] = m"
| "run_loop L m ((name, file) # rest) =
     (if str_contains ''agent-'' name then run_loop L m rest
      else run_loop L (snd (analyze_session L m file)) rest)"

definition limit_files :: "nat option \<Rightarrow> 'a list \<Rightarrow> 'a list" where
  "limit_files limit files =
     (case limit of None \<Rightarrow> files | Some n \<Rightarrow> if n \<noteq> 0 then take n files else files)"

definition run_metrics ::
  "lib \<Rightarrow> (string \<times> string list option) list \<Rightarrow> nat option \<Rightarrow> VerificationMetrics" where
  "run_metrics L files limit = run_loop L zero_metrics (limit_files limit files)"



section \<open>Weekly delegation score (compute\_weekly\_delegation.py)\<close>

definition DELEGATION_WEIGHTS :: "(string \<times> rat) list" where
  "DELEGATION_WEIGHTS =
     [(''exploration'', 1), (''planning'', 1), (''modification'', 1 / 2),
      (''execution'', 1 / 2), (''interaction'', 0), (''other'', 1 / 2)]"

text \<open>\<^verbatim>\<open>DELEGATION_WEIGHTS.get(category, 0.5)\<close>\<close>

definition weight_of :: "string \<Rightarrow> rat" where
  "weight_of c = (case map_of DELEGATION_WEIGHTS c of Some w \<Rightarrow> w | None \<Rightarrow> 1 / 2)"

text \<open>
  \<^verbatim>\<open>category_counts\<close> is a dict from category names to Python integers, iterated in insertion
  order. One iteration of the loop computes \<^verbatim>\<open>(count / total) * 100\<close>, multiplies by the
  weight and adds to \<^verbatim>\<open>weighted_sum\<close>: four floating-point operations. The variable
  \<^verbatim>\<open>total\<close> is \<open>total_count\<close> here.
\<close>

definition add_weighted :: "(rat \<Rightarrow> rat) \<Rightarrow> int \<Rightarrow> rat \<Rightarrow> string \<times> int \<Rightarrow> rat" where
  "add_weighted rnd total_count weighted_sum cc =
     (let weight = weight_of (fst cc);
          percentage = rnd (rnd (of_int (snd cc) / of_int total_count) * 100)
      in rnd (weighted_sum + rnd (percentage * weight)))"

definition compute_delegation_score :: "(rat \<Rightarrow> rat) \<Rightarrow> (string \<times> int) list \<Rightarrow> rat" where
  "compute_delegation_score rnd category_counts =
     (let total_count = sum_list (map snd category_counts) in
      if total_count = 0 then 0
      else rnd (foldl (add_weighted rnd total_count) 0 category_counts / 100))"

text \<open>
  Rounding to the nearest double, ties to even, for values in the range of the normal
  doubles: a positive \<open>x\<close> is scaled by a power of two into \<open>[2^52, 2^53)\<close>, rounded to an
  integer there and scaled back.
\<close>

definition round_half_even :: "rat \<Rightarrow> int" where
  "round_half_even x =
     (let f = \<lfloor>x\<rfloor>; d = x - of_int f in
      if d < 1 / 2 then f else if d > 1 / 2 then f + 1 else if even f then f else f + 1)"

fun scale53 :: "nat \<Rightarrow> rat \<Rightarrow> int \<Rightarrow> rat \<times> int" where
  "scale53 0 x e = (x, e)"
| "scale53 (Suc n) x e =
     (if x \<ge> 2 ^ 53 then scale53 n (x / 2) (e + 1)
      else if x < 2 ^ 52 then scale53 n (x * 2) (e - 1)
      else (x, e))"

definition pow2 :: "int \<Rightarrow> rat" where
  "pow2 e = (if e \<ge> 0 then 2 ^ nat e else 1 / 2 ^ nat (- e))"

definition round_f64 :: "rat \<Rightarrow> rat" where
  "round_f64 x =
     (if x = 0 then 0
      else let (y, e) = scale53 2200 \<bar>x\<bar> 0
           in sgn x * of_int (round_half_even y) * pow2 e)"

section \<open>Notions used to state the properties\<close>

text \<open>
  \<open>first_in_window P events i j\<close>: \<open>j\<close> is the first index among the at most four events
  after index \<open>i\<close> whose event satisfies \<open>P\<close>.
\<close>

definition first_in_window :: "(ToolEvent \<Rightarrow> bool) \<Rightarrow> ToolEvent list \<Rightarrow> nat \<Rightarrow> nat \<Rightarrow> bool" where
  "first_in_window P events i j \<longleftrightarrow>
     i < j \<and> j \<le> i + 4 \<and> j < length events \<and> P (events ! j) \<and>
     (\<forall>m. i < m \<and> m < j \<longrightarrow> \<not> P (events ! m))"

text \<open>
  \<open>cycle_at events s e\<close>: an execute, explore, modify cycle starts at index \<open>s\<close> and is
  the half-open interval \<open>[s, e)\<close>: the event at \<open>s\<close> is of category execution, \<open>j\<close> is the
  first exploration event among the four events after \<open>s\<close>, \<open>k\<close> the first modification
  event among the four after \<open>j\<close>, and \<open>e = k + 1\<close>.
\<close>

definition cycle_at :: "ToolEvent list \<Rightarrow> nat \<Rightarrow> nat \<Rightarrow> bool" where
  "cycle_at events s e \<longleftrightarrow>
     category (events ! s) = ''execution'' \<and>
     (\<exists>j k. first_in_window (\<lambda>ev. category ev = ''exploration'') events s j \<and>
            first_in_window (\<lambda>ev. category ev = ''modification'') events j k \<and> e = k + 1)"

text \<open>Two matches, as half-open index intervals, share an index.\<close>

definition overlaps :: "nat \<times> nat \<Rightarrow> nat \<times> nat \<Rightarrow> bool" where
  "overlaps a b \<longleftrightarrow> fst a < snd b \<and> fst b < snd a"

text \<open>An event as \<^verbatim>\<open>extract_tool_events\<close> builds it for a tool name, with its outcome.\<close>

definition example_event :: "string \<Rightarrow> bool \<Rightarrow> ToolEvent" where
  "example_event name ok =
     \<lparr>tool_name = name, category = get_tool_category name, timestamp = [],
      input_preview = [], success = ok, model = None, file_path = None\<rparr>"

definition example_events :: "ToolEvent list" where
  "example_events = [example_event ''Bash'' False, example_event ''Read'' True, example_event ''Edit'' True,
     example_event ''Bash'' True, example_event ''Read'' True, example_event ''Edit'' True]"

text \<open>
  A library for the examples: lines are decoded through a table of three entries, every
  other line is malformed; the other functions are trivial.
\<close>

definition example_entries :: "(string \<times> entry) list" where
  "example_entries =
     [(''read'', \<lparr>entry_type = Some ''assistant'',
         entry_message = Some \<lparr>msg_role = Some ''assistant'',
           msg_content = ContentList [ToolUse ''Read'' (Some [(''file_path'', ''a.py'')])],
           msg_model = None\<rparr>,
         entry_timestamp = []\<rparr>),
      (''errors'', \<lparr>entry_type = Some ''assistant'',
         entry_message = Some \<lparr>msg_role = Some ''assistant'',
           msg_content = ContentList [ToolUse ''Bash'' (Some [(''command'', ''make'')]),
             ToolResult True, ToolResult True],
           msg_model = None\<rparr>,
         entry_timestamp = []\<rparr>),
      (''edits'', \<lparr>entry_type = Some ''assistant'',
         entry_message = Some \<lparr>msg_role = Some ''assistant'',
           msg_content = ContentList
             [ToolUse ''Edit'' (Some [(''file_path'', ''a.py'')]),
              ToolUse ''Read'' (Some [(''file_path'', ''b.py'')]),
              ToolUse ''Read'' (Some [(''file_path'', ''c.py'')]),
              ToolUse ''Read'' (Some [(''file_path'', ''d.py'')]),
              ToolUse ''Read'' (Some [(''file_path'', ''e.py'')]),
              ToolUse ''Read'' (Some [(''file_path'', ''f.py'')]),
              ToolUse ''Edit'' (Some [(''file_path'', ''a.py'')])],
           msg_model = None\<rparr>,
         entry_timestamp = []\<rparr>)]"

definition example_lib :: lib where
  "example_lib = \<lparr>str_strip = (\<lambda>s. s), json_loads = map_of example_entries,
     str_lower = (\<lambda>s. s), re_search = (\<lambda>p s. False), re_sub = (\<lambda>p r s. s),
     path_name = (\<lambda>s. s)\<rparr>"

text \<open>
  The reader in full against \<^verbatim>\<open>parse_jsonl\<close>: \<open>typed_loads\<close> is \<^verbatim>\<open>json.loads\<close> on the lines that
  decode to an object, every other line counted as one that does not decode;
  \<open>delivered_lines\<close> are the lines of a file up to the point where the record stream ends.
\<close>

definition typed_loads :: "(string \<Rightarrow> loads_result) \<Rightarrow> string \<Rightarrow> entry option" where
  "typed_loads loads s = (case loads s of Loaded (JsonObject e) \<Rightarrow> Some e | _ \<Rightarrow> None)"

fun delivered_lines :: "lib \<Rightarrow> (string \<Rightarrow> loads_result) \<Rightarrow> read_step list \<Rightarrow> string list" where
  "delivered_lines L loads [] = []"
| "delivered_lines L loads (UnicodeDecodeError # rest) = []"
| "delivered_lines L loads (Line line # rest) =
     (if str_strip L line \<noteq> [] \<and> loads (str_strip L line) = OtherException then []
      else line # delivered_lines L loads rest)"




text \<open>
  The content items that \<^verbatim>\<open>analyze_session\<close> scans for tool uses and results: those of the
  assistant messages with a list content, in the order of the file.
\<close>

definition assistant_items :: "entry \<Rightarrow> content_item list" where
  "assistant_items e =
     (if entry_type e = Some ''summary'' then []
      else if msg_role (get_message e) = Some ''assistant'' then
        (case msg_content (get_message e) of ContentList items \<Rightarrow> items | _ \<Rightarrow> [])
      else [])"

definition session_items :: "lib \<Rightarrow> string list option \<Rightarrow> content_item list" where
  "session_items L file = concat (map assistant_items (parse_jsonl L file))"

text \<open>
  Every error result comes after a tool use and is the first error result since the latest
  tool use before it. \<open>pending\<close> says whether there has been a tool use with no error
  result after the latest one.
\<close>

fun one_error_per_use :: "bool \<Rightarrow> content_item list \<Rightarrow> bool" where
  "one_error_per_use pending [] = True"
| "one_error_per_use pending (ToolUse name tool_input # rest) = one_error_per_use True rest"
| "one_error_per_use pending (ToolResult is_err # rest) =
     (if is_err then pending \<and> one_error_per_use False rest else one_error_per_use pending rest)"
| "one_error_per_use pending (_ # rest) = one_error_per_use pending rest"

text \<open>
  The tool uses of a session as the analyzer records them in \<^verbatim>\<open>recent_tools\<close>: tool name and
  file path. The use at index \<open>i\<close> is an immediate correction when it is an edit with a
  file path and one of the at most five tool uses before it, of whatever tool, is an edit of
  the same path.
\<close>

fun tool_uses_of :: "content_item list \<Rightarrow> (string \<times> string option) list" where
  "tool_uses_of [] = []"
| "tool_uses_of (ToolUse name tool_input # rest) = (name, file_path_val tool_input) # tool_uses_of rest"
| "tool_uses_of (_ # rest) = tool_uses_of rest"

definition is_correction :: "(string \<times> string option) list \<Rightarrow> nat \<Rightarrow> bool" where
  "is_correction us i \<longleftrightarrow>
     fst (us ! i) \<in> set EDIT_TOOLS \<and> truthy (snd (us ! i)) \<and>
     (\<exists>j \<in> {i - 5 ..< i}. fst (us ! j) \<in> set EDIT_TOOLS \<and> snd (us ! j) = snd (us ! i))"

definition corrections :: "(string \<times> string option) list \<Rightarrow> nat" where
  "corrections us = length (filter (is_correction us) [0 ..< length us])"

text \<open>
  The rule in the words of the specification: the same path appears in one of the previous
  five modification events, that is, among the last five edits before index \<open>i\<close>.
\<close>

definition claimed_correction :: "(string \<times> string option) list \<Rightarrow> nat \<Rightarrow> bool" where
  "claimed_correction us i \<longleftrightarrow>
     fst (us ! i) \<in> set EDIT_TOOLS \<and> truthy (snd (us ! i)) \<and>
     snd (us ! i) \<in> snd ` set (last5 (filter (\<lambda>u. fst u \<in> set EDIT_TOOLS) (take i us)))"

text \<open>An analyzer state in which the one earlier tool use is an edit of \<^verbatim>\<open>a.py\<close>.\<close>

definition example_state :: analysis where
  "example_state = \<lparr>metrics = zero_metrics, session = zero_session,
     recent_tools = [(''Edit'', Some ''a.py'', True, 0)], recent_bash_failed = False\<rparr>"

text \<open>
  The items that the analyzer counts: a tool use increments \<^verbatim>\<open>total_tool_uses\<close>, a tool result
  with \<^verbatim>\<open>is_error\<close> increments \<^verbatim>\<open>tool_errors\<close>. \<open>scanned_items\<close> are the items of all the
  sessions that \<^verbatim>\<open>run\<close> analyzes, the agent files left out.
\<close>

fun is_tool_use :: "content_item \<Rightarrow> bool" where
  "is_tool_use (ToolUse name tool_input) = True"
| "is_tool_use _ = False"

fun is_error_result :: "content_item \<Rightarrow> bool" where
  "is_error_result (ToolResult is_err) = is_err"
| "is_error_result _ = False"

definition scanned_items ::
  "lib \<Rightarrow> (string \<times> string list option) list \<Rightarrow> nat option \<Rightarrow> content_item list" where
  "scanned_items L files limit =
     concat (map (\<lambda>(name, src). if str_contains ''agent-'' name then [] else session_items L src)
                 (limit_files limit files))"

text \<open>
  A session for the example of the rates: a failed Bash command, its retry, two edits of
  one file, a user message that is a rejection keyword and one that is not; and an agent
  file, which \<^verbatim>\<open>run\<close> skips. \<^verbatim>\<open>re.search\<close> of the example library finds a keyword pattern in
  the text that is the keyword itself.
\<close>

definition rates_entries :: "(string \<times> entry) list" where
  "rates_entries =
     [(''fail'', \<lparr>entry_type = Some ''assistant'',
         entry_message = Some \<lparr>msg_role = Some ''assistant'',
           msg_content = ContentList [ToolUse ''Bash'' (Some [(''command'', ''make'')]), ToolResult True],
           msg_model = None\<rparr>,
         entry_timestamp = []\<rparr>),
      (''retry'', \<lparr>entry_type = Some ''assistant'',
         entry_message = Some \<lparr>msg_role = Some ''assistant'',
           msg_content = ContentList [ToolUse ''Bash'' (Some [(''command'', ''make'')]), ToolResult False],
           msg_model = None\<rparr>,
         entry_timestamp = []\<rparr>),
      (''fix'', \<lparr>entry_type = Some ''assistant'',
         entry_message = Some \<lparr>msg_role = Some ''assistant'',
           msg_content = ContentList [ToolUse ''Edit'' (Some [(''file_path'', ''a.py'')]),
             ToolUse ''Edit'' (Some [(''file_path'', ''a.py'')])],
           msg_model = None\<rparr>,
         entry_timestamp = []\<rparr>),
      (''no'', \<lparr>entry_type = Some ''user'',
         entry_message = Some \<lparr>msg_role = Some ''user'', msg_content = ContentStr ''no'',
           msg_model = None\<rparr>,
         entry_timestamp = []\<rparr>),
      (''thanks'', \<lparr>entry_type = Some ''user'',
         entry_message = Some \<lparr>msg_role = Some ''user'', msg_content = ContentStr ''thanks'',
           msg_model = None\<rparr>,
         entry_timestamp = []\<rparr>)]"

definition rates_lib :: lib where
  "rates_lib = \<lparr>str_strip = (\<lambda>s. s), json_loads = map_of rates_entries,
     str_lower = (\<lambda>s. s),
     re_search = (\<lambda>p s. p = [CHR 0x5C, CHR ''b''] @ s @ [CHR 0x5C, CHR ''b'']),
     re_sub = (\<lambda>p r s. s), path_name = (\<lambda>s. s)\<rparr>"

definition rates_files :: "(string \<times> string list option) list" where
  "rates_files =
     [(''s1.jsonl'', Some [''fail'', ''retry'', ''fix'', ''no'', ''thanks'']),
      (''agent-x.jsonl'', Some [''fail'', ''fail''])]"

text \<open>Invariants of the counters, used in the proofs below.\<close>

definition counts_ok :: "VerificationMetrics \<Rightarrow> bool" where
  "counts_ok m \<longleftrightarrow>
     0 \<le> bash_failures m \<and> bash_failures m \<le> tool_errors m \<and>
     0 \<le> consecutive_edits_same_file m \<and> consecutive_edits_same_file m \<le> total_tool_uses m \<and>
     0 \<le> user_rejection_messages m \<and> user_rejection_messages m \<le> total_user_messages m"

definition pend_ok :: "bool \<Rightarrow> VerificationMetrics \<Rightarrow> bool" where
  "pend_ok pending m \<longleftrightarrow> tool_errors m + (if pending then 1 else 0) \<le> total_tool_uses m"

definition proj :: "string \<times> string option \<times> bool \<times> nat \<Rightarrow> string \<times> string option" where
  "proj r = (fst r, fst (snd r))"

definition corr_inv :: "int \<Rightarrow> int \<Rightarrow> analysis \<Rightarrow> (string \<times> string option) list \<Rightarrow> bool" where
  "corr_inv c0 s0 st us \<longleftrightarrow>
     map proj (recent_tools st) = us \<and>
     sm_consecutive_edits (session st) = s0 + int (corrections us) \<and>
     consecutive_edits_same_file (metrics st) = c0 + int (corrections us)"

section \<open>Properties of the category table\<close>

text \<open>
  The table of \<^verbatim>\<open>get_tool_category\<close> has no list for \<^verbatim>\<open>advanced\<close>. A browser-automation
  tool, which the table of advanced\_analysis.py puts into its \<^verbatim>\<open>advanced\<close> group, is an
  unmapped name for \<^verbatim>\<open>get_tool_category\<close> and gets \<^verbatim>\<open>other\<close>.
\<close>

theorem advanced_category_counterexample:
  "map_of tool_categories ''advanced'' =
     Some [''AgentOutputTool'', ''mcp__playwright__browser_navigate'',
           ''mcp__playwright__browser_press_key''] \<and>
   get_tool_category ''mcp__playwright__browser_navigate'' = ''other'' \<and>
   get_tool_category ''mcp__playwright__browser_press_key'' = ''other'' \<and>
   get_tool_category ''AgentOutputTool'' = ''other'' \<and>
   map_of TOOL_CATEGORIES ''advanced'' = None"
  by (simp add: tool_categories_def get_tool_category_def TOOL_CATEGORIES_def)

text \<open>
  C7, as amended. The category table is a total mapping: for every tool name
  \<^verbatim>\<open>get_tool_category\<close> returns one category, and the categories returned are exactly
  the six names exploration, modification, execution, planning, interaction and other
  (each of them is returned for some name). \<^verbatim>\<open>advanced\<close> is never returned. The lists of
  the table are disjoint, so the category returned is the one whose list holds the name,
  whatever the order of the table, and a name in no list gets \<^verbatim>\<open>other\<close>; this is the case
  of every name of the \<^verbatim>\<open>advanced\<close> group of advanced\_analysis.py.
\<close>

theorem get_tool_category_six:
  "get_tool_category name \<in> {''exploration'', ''modification'', ''execution'', ''planning'',
       ''interaction'', ''other''} \<and>
   range get_tool_category = {''exploration'', ''modification'', ''execution'', ''planning'',
       ''interaction'', ''other''} \<and>
   get_tool_category name \<noteq> ''advanced'' \<and>
   (\<forall>c tools. (c, tools) \<in> set TOOL_CATEGORIES \<longrightarrow>
       (get_tool_category name = c \<longleftrightarrow> name \<in> set tools)) \<and>
   (get_tool_category name = ''other'' \<longleftrightarrow> (\<forall>(c, tools) \<in> set TOOL_CATEGORIES. name \<notin> set tools)) \<and>
   (\<forall>tools. map_of tool_categories ''advanced'' = Some tools \<longrightarrow> name \<in> set tools \<longrightarrow>
       get_tool_category name = ''other'')"
proof (intro conjI)
  show six: "get_tool_category name \<in> {''exploration'', ''modification'', ''execution'',
       ''planning'', ''interaction'', ''other''}" for name
    by (simp add: get_tool_category_def TOOL_CATEGORIES_def)
  show "range get_tool_category = {''exploration'', ''modification'', ''execution'', ''planning'',
       ''interaction'', ''other''}"
  proof
    show "range get_tool_category \<subseteq> {''exploration'', ''modification'', ''execution'',
        ''planning'', ''interaction'', ''other''}"
      using six by blast
    have "get_tool_category ''Read'' = ''exploration''"
      "get_tool_category ''Write'' = ''modification''"
      "get_tool_category ''Bash'' = ''execution''"
      "get_tool_category ''TodoWrite'' = ''planning''"
      "get_tool_category ''AskUserQuestion'' = ''interaction''"
      "get_tool_category [] = ''other''"
      by (simp_all add: get_tool_category_def TOOL_CATEGORIES_def)
    then show "{''exploration'', ''modification'', ''execution'', ''planning'',
        ''interaction'', ''other''} \<subseteq> range get_tool_category"
      by (metis empty_subsetI insert_subset rangeI)
  qed
  show "get_tool_category name \<noteq> ''advanced''"
    by (simp add: get_tool_category_def TOOL_CATEGORIES_def)
  show "\<forall>c tools. (c, tools) \<in> set TOOL_CATEGORIES \<longrightarrow>
       (get_tool_category name = c \<longleftrightarrow> name \<in> set tools)"
    by (auto simp add: get_tool_category_def TOOL_CATEGORIES_def)
  show "get_tool_category name = ''other'' \<longleftrightarrow> (\<forall>(c, tools) \<in> set TOOL_CATEGORIES. name \<notin> set tools)"
    by (simp add: get_tool_category_def TOOL_CATEGORIES_def)
  show "\<forall>tools. map_of tool_categories ''advanced'' = Some tools \<longrightarrow> name \<in> set tools \<longrightarrow>
       get_tool_category name = ''other''"
    by (auto simp add: tool_categories_def get_tool_category_def TOOL_CATEGORIES_def)
qed

theorem get_tool_category_six_witness:
  "(''execution'', [''Bash'', ''Task'', ''TaskOutput'', ''KillShell'']) \<in> set TOOL_CATEGORIES \<and>
   ''Bash'' \<in> set [''Bash'', ''Task'', ''TaskOutput'', ''KillShell''] \<and>
   get_tool_category ''Bash'' = ''execution'' \<and> get_tool_category ''Bash'' \<noteq> ''other'' \<and>
   get_tool_category ''LS'' = ''other'' \<and>
   map_of tool_categories ''advanced'' =
     Some [''AgentOutputTool'', ''mcp__playwright__browser_navigate'',
           ''mcp__playwright__browser_press_key''] \<and>
   get_tool_category ''mcp__playwright__browser_navigate'' = ''other''"
proof -
  have t: "(''execution'', [''Bash'', ''Task'', ''TaskOutput'', ''KillShell'']) \<in> set TOOL_CATEGORIES"
    by (simp add: TOOL_CATEGORIES_def)
  have a: "map_of tool_categories ''advanced'' =
     Some [''AgentOutputTool'', ''mcp__playwright__browser_navigate'',
           ''mcp__playwright__browser_press_key'']"
    by (simp add: tool_categories_def)
  have n: "\<forall>(c, tools) \<in> set TOOL_CATEGORIES. ''LS'' \<notin> set tools"
    by (simp add: TOOL_CATEGORIES_def)
  have b: "get_tool_category ''Bash'' = ''execution''"
    using get_tool_category_six[of "''Bash''"] t by simp
  have o: "get_tool_category ''LS'' = ''other''"
    using get_tool_category_six[of "''LS''"] n by blast
  have p: "get_tool_category ''mcp__playwright__browser_navigate'' = ''other''"
    using get_tool_category_six[of "''mcp__playwright__browser_navigate''"] a by simp
  show ?thesis using t a b o p by simp
qed

section \<open>Properties of the pattern detectors\<close>

subsection \<open>The window searches\<close>

lemma find_upt_Some:
  "List.find P [a ..< b] = Some k \<longleftrightarrow> a \<le> k \<and> k < b \<and> P k \<and> (\<forall>m. a \<le> m \<and> m < k \<longrightarrow> \<not> P m)"
proof -
  have "List.find P [a ..< b] = Some k \<longleftrightarrow>
          (\<exists>i < b - a. P (a + i) \<and> k = a + i \<and> (\<forall>j < i. \<not> P (a + j)))"
    by (simp add: find_Some_iff cong: conj_cong)
  also have "\<dots> \<longleftrightarrow> a \<le> k \<and> k < b \<and> P k \<and> (\<forall>m. a \<le> m \<and> m < k \<longrightarrow> \<not> P m)"
  proof
    assume "\<exists>i < b - a. P (a + i) \<and> k = a + i \<and> (\<forall>j < i. \<not> P (a + j))"
    then obtain i where i: "i < b - a" "P (a + i)" "k = a + i" "\<forall>j < i. \<not> P (a + j)" by blast
    have "\<not> P m" if "a \<le> m" "m < k" for m
    proof -
      have "m - a < i" using that i(3) by arith
      then have "\<not> P (a + (m - a))" using i(4) by blast
      then show ?thesis using that by simp
    qed
    then show "a \<le> k \<and> k < b \<and> P k \<and> (\<forall>m. a \<le> m \<and> m < k \<longrightarrow> \<not> P m)"
      using i by auto
  next
    assume r: "a \<le> k \<and> k < b \<and> P k \<and> (\<forall>m. a \<le> m \<and> m < k \<longrightarrow> \<not> P m)"
    then have "k - a < b - a \<and> P (a + (k - a)) \<and> k = a + (k - a) \<and> (\<forall>j < k - a. \<not> P (a + j))"
      by auto
    then show "\<exists>i < b - a. P (a + i) \<and> k = a + i \<and> (\<forall>j < i. \<not> P (a + j))" by blast
  qed
  finally show ?thesis .
qed


lemma first_in_window_find:
  "first_in_window P events i j \<longleftrightarrow>
     List.find (\<lambda>j. P (events ! j)) [i + 1 ..< min (i + 5) (length events)] = Some j"
  unfolding first_in_window_def find_upt_Some by auto

lemma eem_find_k_find:
  "eem_find_k events ks = List.find (\<lambda>k. category (events ! k) = ''modification'') ks"
  by (induction ks) auto

lemma eem_find_j_find:
  "eem_find_j events js =
     (case List.find (\<lambda>j. category (events ! j) = ''exploration'') js of
        None \<Rightarrow> None
      | Some j \<Rightarrow> eem_find_k events [j + 1 ..< min (j + 5) (length events)])"
  by (induction js) auto

lemma eem_find_j_iff:
  "eem_find_j events [i + 1 ..< min (i + 5) (length events)] = Some k \<longleftrightarrow>
     (\<exists>j. first_in_window (\<lambda>e. category e = ''exploration'') events i j \<and>
          first_in_window (\<lambda>e. category e = ''modification'') events j k)"
  by (simp add: eem_find_j_find eem_find_k_find first_in_window_find split: option.splits)

lemma bash_find_j_find:
  "bash_find_j events js = List.find (\<lambda>j. tool_name (events ! j) = ''Bash'') js"
  by (induction js) auto

subsection \<open>Execute, explore, modify\<close>

lemma eem_three:
  assumes "category e0 = ''execution''" "category e1 = ''exploration''" "category e2 = ''modification''"
  shows "find_execute_explore_modify_cycles [e0, e1, e2] = [(0, 3)]"
proof -
  have u: "[Suc 0 ..< 3] = [1, 2]" "[2 ..< 3] = [2::nat]" by (simp_all add: upt_conv_Cons)
  have "eem_loop [e0, e1, e2] 0 [] = eem_loop [e0, e1, e2] 3 [(0, 3)]"
    using assms by (simp add: eem_loop.simps[of "[e0, e1, e2]" 0] u numeral_3_eq_3)
  then show ?thesis
    by (simp add: find_execute_explore_modify_cycles_def eem_loop.simps[of "[e0, e1, e2]" 3])
qed

lemma example_events_cats:
  "length example_events = 6"
  "category (example_events ! 0) = ''execution''"
  "category (example_events ! Suc 0) = ''exploration''"
  "category (example_events ! 2) = ''modification''"
  by (simp_all add: example_events_def example_event_def get_tool_category_def TOOL_CATEGORIES_def)

lemma eem_loop_sorted:
  "sorted_wrt (\<lambda>a b. snd a \<le> fst b) cycles \<Longrightarrow> \<forall>m \<in> set cycles. fst m < snd m \<and> snd m \<le> i \<Longrightarrow>
   sorted_wrt (\<lambda>a b. snd a \<le> fst b) (eem_loop events i cycles) \<and>
   (\<forall>m \<in> set (eem_loop events i cycles). fst m < snd m)"
proof (induction events i cycles rule: eem_loop.induct)
  case (1 events i cycles)
  show ?case
  proof (cases "int i < int (length events) - 2")
    case False
    then show ?thesis using "1.prems" by (simp add: eem_loop.simps[of events i cycles])
  next
    case guard: True
    show ?thesis
    proof (cases "category (events ! i) = ''execution''")
      case False
      have "\<forall>m \<in> set cycles. fst m < snd m \<and> snd m \<le> i + 1"
        using "1.prems"(2) by auto
      from "1.IH"(3)[OF guard False "1.prems"(1) this] show ?thesis
        using guard False by (simp add: eem_loop.simps[of events i cycles])
    next
      case exec: True
      show ?thesis
      proof (cases "eem_find_j events [i + 1 ..< min (i + 5) (length events)]")
        case None
        have "\<forall>m \<in> set cycles. fst m < snd m \<and> snd m \<le> i + 1"
          using "1.prems"(2) by auto
        from "1.IH"(1)[OF guard exec None "1.prems"(1) this] show ?thesis
          using guard exec None by (simp add: eem_loop.simps[of events i cycles])
      next
        case (Some k)
        then have ik: "i < k" by (auto dest!: eem_find_j_gt)
        have s: "sorted_wrt (\<lambda>a b. snd a \<le> fst b) (cycles @ [(i, k + 1)])"
          using "1.prems" by (auto simp: sorted_wrt_append)
        have b: "\<forall>m \<in> set (cycles @ [(i, k + 1)]). fst m < snd m \<and> snd m \<le> k + 1"
          using "1.prems"(2) ik by auto
        from "1.IH"(2)[OF guard exec Some s b] show ?thesis
          using guard exec Some by (simp add: eem_loop.simps[of events i cycles])
      qed
    qed
  qed
qed

lemma example_events_cycles:
  "find_execute_explore_modify_cycles example_events = [(0, 3), (3, 6)]"
  by code_simp

lemma cycle_at_find:
  "cycle_at events s e \<longleftrightarrow>
     category (events ! s) = ''execution'' \<and>
     (\<exists>k. eem_find_j events [s + 1 ..< min (s + 5) (length events)] = Some k \<and> e = k + 1)"
  unfolding cycle_at_def eem_find_j_iff by blast

lemma cycle_at_bound: "cycle_at events s e \<Longrightarrow> s + 2 < length events"
  unfolding cycle_at_def first_in_window_def by auto

lemma eem_loop_mono: "set cycles \<subseteq> set (eem_loop events i cycles)"
proof (induction events i cycles rule: eem_loop.induct)
  case (1 events i cycles)
  show ?case
  proof (cases "int i < int (length events) - 2")
    case False
    then show ?thesis by (simp add: eem_loop.simps[of events i cycles])
  next
    case guard: True
    show ?thesis
    proof (cases "category (events ! i) = ''execution''")
      case False
      from "1.IH"(3)[OF guard False] show ?thesis
        using guard False by (simp add: eem_loop.simps[of events i cycles])
    next
      case exec: True
      show ?thesis
      proof (cases "eem_find_j events [i + 1 ..< min (i + 5) (length events)]")
        case None
        from "1.IH"(1)[OF guard exec None] show ?thesis
          using guard exec None by (simp add: eem_loop.simps[of events i cycles])
      next
        case (Some k)
        from "1.IH"(2)[OF guard exec Some] show ?thesis
          using guard exec Some by (simp add: eem_loop.simps[of events i cycles])
      qed
    qed
  qed
qed

lemma eem_loop_sound:
  "m \<in> set (eem_loop events i cycles) \<Longrightarrow>
   m \<in> set cycles \<or> (i \<le> fst m \<and> cycle_at events (fst m) (snd m))"
proof (induction events i cycles rule: eem_loop.induct)
  case (1 events i cycles)
  show ?case
  proof (cases "int i < int (length events) - 2")
    case False
    then show ?thesis using "1.prems" by (simp add: eem_loop.simps[of events i cycles])
  next
    case guard: True
    show ?thesis
    proof (cases "category (events ! i) = ''execution''")
      case False
      have "m \<in> set (eem_loop events (i + 1) cycles)"
        using "1.prems" guard False by (simp add: eem_loop.simps[of events i cycles])
      from "1.IH"(3)[OF guard False this] show ?thesis by auto
    next
      case exec: True
      show ?thesis
      proof (cases "eem_find_j events [i + 1 ..< min (i + 5) (length events)]")
        case None
        have "m \<in> set (eem_loop events (i + 1) cycles)"
          using "1.prems" guard exec None by (simp add: eem_loop.simps[of events i cycles])
        from "1.IH"(1)[OF guard exec None this] show ?thesis by auto
      next
        case (Some k)
        then have ik: "i < k" by (auto dest!: eem_find_j_gt)
        have c: "cycle_at events i (k + 1)"
          unfolding cycle_at_find using exec Some by simp
        have "m \<in> set (eem_loop events (k + 1) (cycles @ [(i, k + 1)]))"
          using "1.prems" guard exec Some by (simp add: eem_loop.simps[of events i cycles])
        from "1.IH"(2)[OF guard exec Some this] show ?thesis
          using c ik by auto
      qed
    qed
  qed
qed

lemma eem_loop_complete:
  "i \<le> s \<Longrightarrow> cycle_at events s e \<Longrightarrow>
   \<forall>m \<in> set (eem_loop events i cycles). \<not> (fst m < s \<and> s < snd m) \<Longrightarrow>
   (s, e) \<in> set (eem_loop events i cycles)"
proof (induction events i cycles rule: eem_loop.induct)
  case (1 events i cycles)
  show ?case
  proof (cases "int i < int (length events) - 2")
    case False
    then show ?thesis using "1.prems"(1) cycle_at_bound[OF "1.prems"(2)] by simp
  next
    case guard: True
    show ?thesis
    proof (cases "category (events ! i) = ''execution''")
      case False
      have e: "eem_loop events i cycles = eem_loop events (i + 1) cycles"
        using guard False by (simp add: eem_loop.simps[of events i cycles])
      have "s \<noteq> i" using False "1.prems"(2) by (auto simp: cycle_at_def)
      then have "i + 1 \<le> s" using "1.prems"(1) by simp
      from "1.IH"(3)[OF guard False this "1.prems"(2)] "1.prems"(3) show ?thesis
        unfolding e by simp
    next
      case exec: True
      show ?thesis
      proof (cases "eem_find_j events [i + 1 ..< min (i + 5) (length events)]")
        case None
        have e: "eem_loop events i cycles = eem_loop events (i + 1) cycles"
          using guard exec None by (simp add: eem_loop.simps[of events i cycles])
        have "s \<noteq> i" using None "1.prems"(2) by (auto simp: cycle_at_find)
        then have "i + 1 \<le> s" using "1.prems"(1) by simp
        from "1.IH"(1)[OF guard exec None this "1.prems"(2)] "1.prems"(3) show ?thesis
          unfolding e by simp
      next
        case (Some k)
        have e: "eem_loop events i cycles = eem_loop events (k + 1) (cycles @ [(i, k + 1)])"
          using guard exec Some by (simp add: eem_loop.simps[of events i cycles])
        have in_res: "(i, k + 1) \<in> set (eem_loop events i cycles)"
          unfolding e using eem_loop_mono[of "cycles @ [(i, k + 1)]" events "k + 1"] by auto
        show ?thesis
        proof (cases "s = i")
          case True
          then have "e = k + 1" using "1.prems"(2) Some by (auto simp: cycle_at_find)
          with True in_res show ?thesis by simp
        next
          case False
          then have "i < s" using "1.prems"(1) by simp
          moreover have "\<not> (i < s \<and> s < k + 1)" using "1.prems"(3) in_res by fastforce
          ultimately have "k + 1 \<le> s" by simp
          from "1.IH"(2)[OF guard exec Some this "1.prems"(2)] "1.prems"(3) show ?thesis
            unfolding e by simp
        qed
      qed
    qed
  qed
qed


text \<open>
  C5. The detector is the scan started at index 0 with no match. One iteration of the scan
  at index \<open>i\<close>: the loop ends when fewer than three events are left; at an execution
  event, when \<open>j\<close> is the first exploration event among the next four events and \<open>k\<close> the
  first modification event among the four after \<open>j\<close>, the match \<open>[i, k + 1)\<close> is emitted
  and the scan resumes at \<open>k + 1\<close>; in every other case the scan moves to \<open>i + 1\<close> and
  emits nothing. Hence the result of the detector: every match \<open>[s, e)\<close> of the result is
  such a cycle starting at \<open>s\<close>; a cycle starting at \<open>s\<close> is in the result unless \<open>s\<close> lies
  strictly inside a match of the result, which the scan has skipped; and the matches come
  in the order of the scan, each starting at or after the end of the one before. On three
  events of categories execution, exploration, modification the detector returns the one
  match \<open>[0, 3)\<close>.
\<close>

theorem eem_scan:
  "find_execute_explore_modify_cycles events = eem_loop events 0 [] \<and>
   (\<not> i + 2 < length events \<longrightarrow> eem_loop events i cycles = cycles) \<and>
   (i + 2 < length events \<and> category (events ! i) = ''execution'' \<and>
      first_in_window (\<lambda>e. category e = ''exploration'') events i j \<and>
      first_in_window (\<lambda>e. category e = ''modification'') events j k
      \<longrightarrow> eem_loop events i cycles = eem_loop events (k + 1) (cycles @ [(i, k + 1)])) \<and>
   (i + 2 < length events \<and>
      \<not> (category (events ! i) = ''execution'' \<and>
         (\<exists>j k. first_in_window (\<lambda>e. category e = ''exploration'') events i j \<and>
                first_in_window (\<lambda>e. category e = ''modification'') events j k))
      \<longrightarrow> eem_loop events i cycles = eem_loop events (i + 1) cycles) \<and>
   ((s, e) \<in> set (find_execute_explore_modify_cycles events) \<longrightarrow> cycle_at events s e) \<and>
   (cycle_at events s e \<and>
      (\<forall>m \<in> set (find_execute_explore_modify_cycles events). \<not> (fst m < s \<and> s < snd m))
      \<longrightarrow> (s, e) \<in> set (find_execute_explore_modify_cycles events)) \<and>
   sorted_wrt (\<lambda>a b. snd a \<le> fst b) (find_execute_explore_modify_cycles events) \<and>
   (category ea = ''execution'' \<and> category eb = ''exploration'' \<and> category ec = ''modification''
      \<longrightarrow> find_execute_explore_modify_cycles [ea, eb, ec] = [(0, 3)])"
proof (intro conjI impI)
  show "find_execute_explore_modify_cycles events = eem_loop events 0 []"
    by (simp add: find_execute_explore_modify_cycles_def)
next
  assume "\<not> i + 2 < length events"
  then show "eem_loop events i cycles = cycles"
    by (simp add: eem_loop.simps[of events i cycles])
next
  assume a: "i + 2 < length events \<and> category (events ! i) = ''execution'' \<and>
      first_in_window (\<lambda>e. category e = ''exploration'') events i j \<and>
      first_in_window (\<lambda>e. category e = ''modification'') events j k"
  then have "eem_find_j events [i + 1 ..< min (i + 5) (length events)] = Some k"
    unfolding eem_find_j_iff by blast
  with a show "eem_loop events i cycles = eem_loop events (k + 1) (cycles @ [(i, k + 1)])"
    by (simp add: eem_loop.simps[of events i cycles])
next
  assume a: "i + 2 < length events \<and>
      \<not> (category (events ! i) = ''execution'' \<and>
         (\<exists>j k. first_in_window (\<lambda>e. category e = ''exploration'') events i j \<and>
                first_in_window (\<lambda>e. category e = ''modification'') events j k))"
  show "eem_loop events i cycles = eem_loop events (i + 1) cycles"
  proof (cases "category (events ! i) = ''execution''")
    case False
    with a show ?thesis by (simp add: eem_loop.simps[of events i cycles])
  next
    case True
    with a have "eem_find_j events [i + 1 ..< min (i + 5) (length events)] = None"
      using eem_find_j_iff[of events i] by (cases "eem_find_j events [i + 1 ..< min (i + 5) (length events)]") auto
    with a True show ?thesis by (simp add: eem_loop.simps[of events i cycles])
  qed
next
  assume "(s, e) \<in> set (find_execute_explore_modify_cycles events)"
  then show "cycle_at events s e"
    unfolding find_execute_explore_modify_cycles_def
    using eem_loop_sound[of "(s, e)" events 0 "[]"] by simp
next
  assume "cycle_at events s e \<and>
      (\<forall>m \<in> set (find_execute_explore_modify_cycles events). \<not> (fst m < s \<and> s < snd m))"
  then show "(s, e) \<in> set (find_execute_explore_modify_cycles events)"
    unfolding find_execute_explore_modify_cycles_def
    using eem_loop_complete[of 0 s events e "[]"] by simp
next
  show "sorted_wrt (\<lambda>a b. snd a \<le> fst b) (find_execute_explore_modify_cycles events)"
    unfolding find_execute_explore_modify_cycles_def
    using eem_loop_sorted[of "[]" 0 events] by simp
next
  assume "category ea = ''execution'' \<and> category eb = ''exploration'' \<and> category ec = ''modification''"
  then show "find_execute_explore_modify_cycles [ea, eb, ec] = [(0, 3)]"
    by (simp add: eem_three)
qed

theorem eem_scan_witness:
  "find_execute_explore_modify_cycles example_events = eem_loop example_events 0 [] \<and>
   eem_loop example_events 4 [(0, 3)] = [(0, 3)] \<and>
   eem_loop example_events 0 [] = eem_loop example_events 3 [(0, 3)] \<and>
   eem_loop example_events 1 [] = eem_loop example_events (1 + 1) [] \<and>
   (0, 3) \<in> set (find_execute_explore_modify_cycles example_events) \<and>
   cycle_at example_events 0 3 \<and>
   cycle_at example_events 3 6 \<and>
   (3, 6) \<in> set (find_execute_explore_modify_cycles example_events) \<and>
   find_execute_explore_modify_cycles (take 3 example_events) = [(0, 3)]"
proof -
  have w1: "first_in_window (\<lambda>e. category e = ''exploration'') example_events 0 1"
    by (simp add: first_in_window_def example_events_cats)
  have w2: "first_in_window (\<lambda>e. category e = ''modification'') example_events 1 2"
    by (auto simp: first_in_window_def example_events_cats)
  have t: "take 3 example_events = [example_events ! 0, example_events ! Suc 0, example_events ! 2]"
    by (simp add: example_events_def)
  have c0: "find_execute_explore_modify_cycles example_events = eem_loop example_events 0 []"
    using eem_scan[where events = example_events, THEN conjunct1] .
  have c1: "eem_loop example_events 4 [(0, 3)] = [(0, 3)]"
    using eem_scan[where i = 4 and events = example_events and cycles = "[(0, 3)]",
        THEN conjunct2, THEN conjunct1]
    by (simp add: example_events_cats)
  have c2: "eem_loop example_events 0 [] = eem_loop example_events 3 [(0, 3)]"
    using eem_scan[where i = 0 and events = example_events and cycles = "[]" and j = 1 and k = 2,
        THEN conjunct2, THEN conjunct2, THEN conjunct1] w1 w2
    by (simp add: example_events_cats)
  have c3: "eem_loop example_events 1 [] = eem_loop example_events (1 + 1) []"
    using eem_scan[where i = 1 and events = example_events and cycles = "[]",
        THEN conjunct2, THEN conjunct2, THEN conjunct2, THEN conjunct1]
    by (simp add: example_events_cats)
  have m0: "(0, 3) \<in> set (find_execute_explore_modify_cycles example_events)"
    by (simp add: example_events_cycles)
  have c4: "cycle_at example_events 0 3"
    using eem_scan[where events = example_events and s = 0 and e = 3,
        THEN conjunct2, THEN conjunct2, THEN conjunct2, THEN conjunct2, THEN conjunct1] m0
    by simp
  have f3: "eem_find_j example_events [3 + 1 ..< min (3 + 5) (length example_events)] = Some 5"
    by code_simp
  have e3: "category (example_events ! 3) = ''execution''"
    by code_simp
  have a3: "cycle_at example_events 3 6"
    unfolding cycle_at_find using f3 e3 by simp
  have n3: "\<forall>m \<in> set (find_execute_explore_modify_cycles example_events). \<not> (fst m < 3 \<and> 3 < snd m)"
    by (simp add: example_events_cycles)
  have c5: "(3, 6) \<in> set (find_execute_explore_modify_cycles example_events)"
    using eem_scan[where events = example_events and s = 3 and e = 6,
        THEN conjunct2, THEN conjunct2, THEN conjunct2, THEN conjunct2, THEN conjunct2,
        THEN conjunct1] a3 n3
    by blast
  have c6: "find_execute_explore_modify_cycles (take 3 example_events) = [(0, 3)]"
    using eem_scan[where ea = "example_events ! 0" and eb = "example_events ! Suc 0"
        and ec = "example_events ! 2", THEN conjunct2, THEN conjunct2, THEN conjunct2,
        THEN conjunct2, THEN conjunct2, THEN conjunct2, THEN conjunct2]
    by (simp add: example_events_cats t)
  from c0 c1 c2 c3 m0 c4 a3 c5 c6 show ?thesis by blast
qed

text \<open>
  C3, as amended. No two matches of the execute, explore, modify detector overlap: a later
  match starts at or after the end of every earlier one, and every match ends after its
  start. The other two detectors do emit overlapping matches, see below.
\<close>

theorem eem_matches_disjoint:
  assumes "a < b" and "b < length (find_execute_explore_modify_cycles events)"
  shows "\<not> overlaps (find_execute_explore_modify_cycles events ! a)
                    (find_execute_explore_modify_cycles events ! b) \<and>
         snd (find_execute_explore_modify_cycles events ! a)
           \<le> fst (find_execute_explore_modify_cycles events ! b) \<and>
         fst (find_execute_explore_modify_cycles events ! b)
           < snd (find_execute_explore_modify_cycles events ! b)"
proof -
  let ?ms = "find_execute_explore_modify_cycles events"
  have s: "sorted_wrt (\<lambda>a b. snd a \<le> fst b) ?ms \<and> (\<forall>m \<in> set ?ms. fst m < snd m)"
    using eem_loop_sorted[of "[]" 0 events] by (simp add: find_execute_explore_modify_cycles_def)
  then have le: "snd (?ms ! a) \<le> fst (?ms ! b)"
    using assms by (simp add: sorted_wrt_iff_nth_less)
  have "?ms ! b \<in> set ?ms" using assms(2) by simp
  with s have "fst (?ms ! b) < snd (?ms ! b)" by blast
  with le show ?thesis by (simp add: overlaps_def)
qed

theorem eem_matches_disjoint_witness:
  "find_execute_explore_modify_cycles example_events = [(0, 3), (3, 6)] \<and> \<not> overlaps (0, 3) (3, 6)"
  using eem_matches_disjoint[of 0 1 example_events]
  by (simp add: example_events_cycles)

text \<open>
  C3 as stated fails for the Bash retry detector: on two failed Bash events followed by a
  third Bash event it emits \<open>[0, 2)\<close> and \<open>[1, 3)\<close>, which share index 1.
\<close>

theorem bash_retry_overlap_counterexample:
  "find_bash_retry_sequences
     [example_event ''Bash'' False, example_event ''Bash'' False, example_event ''Bash'' True]
     = [(0, 2), (1, 3)] \<and> overlaps (0, 2) (1, 3)"
  by code_simp

text \<open>
  The correction detector overlaps as well: three edits of one file give two matches that
  share the middle edit.
\<close>

lemma correction_overlap_example:
  "find_correction_sequences
     [(example_event ''Edit'' True)\<lparr>file_path := Some ''a.py''\<rparr>,
      (example_event ''Edit'' True)\<lparr>file_path := Some ''a.py''\<rparr>,
      (example_event ''Edit'' True)\<lparr>file_path := Some ''a.py''\<rparr>]
     = [(0, 2), (1, 3)]"
  by code_simp

subsection \<open>Bash retries\<close>

lemma bash_retry_loop_set:
  "set (bash_retry_loop events is retries) = set retries \<union>
     {(i, j + 1) | i j. i \<in> set is \<and> tool_name (events ! i) = ''Bash'' \<and> \<not> success (events ! i) \<and>
        bash_find_j events [i + 1 ..< min (i + 5) (length events)] = Some j}"
proof (induction "is" arbitrary: retries)
  case Nil
  then show ?case by simp
next
  case (Cons i "is")
  show ?case
  proof (cases "tool_name (events ! i) = ''Bash'' \<and> \<not> success (events ! i)")
    case False
    then show ?thesis using Cons.IH[of retries] by auto
  next
    case True
    show ?thesis
    proof (cases "bash_find_j events [i + 1 ..< min (i + 5) (length events)]")
      case None
      then show ?thesis using True Cons.IH[of retries] by auto
    next
      case (Some j)
      then show ?thesis using True Cons.IH[of "retries @ [(i, j + 1)]"] by auto
    qed
  qed
qed

lemma bash_retry_loop_fst:
  "map fst (bash_retry_loop events is retries) = map fst retries @
     filter (\<lambda>i. tool_name (events ! i) = ''Bash'' \<and> \<not> success (events ! i) \<and>
        bash_find_j events [i + 1 ..< min (i + 5) (length events)] \<noteq> None) is"
  by (induction "is" arbitrary: retries) (auto split: option.splits)

lemma bash_example_retry:
  assumes "tool_name a = ''Bash''" "\<not> success a" "tool_name r = ''Read''" "tool_name b = ''Bash''" "success b"
  shows "find_bash_retry_sequences [a, r, b] = [(0, 3)]"
proof -
  have u: "[0 ..< 3] = [0, 1, 2::nat]" "[Suc 0 ..< 3] = [1, 2::nat]" "[2 ..< 3] = [2::nat]"
    by (simp_all add: upt_conv_Cons)
  show ?thesis using assms
    by (simp add: find_bash_retry_sequences_def u numeral_3_eq_3)
qed

lemma bash_example_gap:
  assumes "tool_name a = ''Bash''" "\<not> success a" "tool_name b = ''Bash''"
    and "tool_name r1 = ''Read''" "tool_name r2 = ''Read''" "tool_name r3 = ''Read''"
    and "tool_name r4 = ''Read''" "tool_name r5 = ''Read''"
  shows "find_bash_retry_sequences [a, r1, r2, r3, r4, r5, b] = []"
proof -
  have u: "[0 ..< 7] = [0, 1, 2, 3, 4, 5, 6::nat]" "[Suc 0 ..< 5] = [1, 2, 3, 4::nat]"
    by (simp_all add: upt_conv_Cons)
  show ?thesis using assms
    by (simp add: find_bash_retry_sequences_def u)
qed

text \<open>
  C6. The Bash retry detector emits \<open>[s, e)\<close> exactly when the event at \<open>s\<close> is a failed Bash
  event and \<open>e = j + 1\<close> for the first Bash event \<open>j\<close> among the at most four events after
  \<open>s\<close>; the matches come in the order of their start, one at most per start. On a failed
  Bash, a Read and a successful Bash it returns the one match \<open>[0, 3)\<close>; on a failed Bash,
  five Reads and a Bash it returns nothing.
\<close>

theorem bash_retry_matches:
  "((s, e) \<in> set (find_bash_retry_sequences events) \<longleftrightarrow>
      s < length events \<and> tool_name (events ! s) = ''Bash'' \<and> \<not> success (events ! s) \<and>
      (\<exists>j. e = j + 1 \<and> first_in_window (\<lambda>ev. tool_name ev = ''Bash'') events s j)) \<and>
   sorted_wrt (<) (map fst (find_bash_retry_sequences events)) \<and>
   (tool_name a = ''Bash'' \<and> \<not> success a \<and> tool_name r = ''Read'' \<and> tool_name b = ''Bash'' \<and> success b
      \<longrightarrow> find_bash_retry_sequences [a, r, b] = [(0, 3)]) \<and>
   (tool_name a = ''Bash'' \<and> \<not> success a \<and> tool_name b = ''Bash'' \<and>
    tool_name r1 = ''Read'' \<and> tool_name r2 = ''Read'' \<and> tool_name r3 = ''Read'' \<and>
    tool_name r4 = ''Read'' \<and> tool_name r5 = ''Read''
      \<longrightarrow> find_bash_retry_sequences [a, r1, r2, r3, r4, r5, b] = [])"
proof (intro conjI impI)
  show "(s, e) \<in> set (find_bash_retry_sequences events) \<longleftrightarrow>
      s < length events \<and> tool_name (events ! s) = ''Bash'' \<and> \<not> success (events ! s) \<and>
      (\<exists>j. e = j + 1 \<and> first_in_window (\<lambda>ev. tool_name ev = ''Bash'') events s j)"
    by (auto simp: find_bash_retry_sequences_def bash_retry_loop_set bash_find_j_find
        first_in_window_find)
next
  have "sorted_wrt (<) [0 ..< length events]" by simp
  then show "sorted_wrt (<) (map fst (find_bash_retry_sequences events))"
    unfolding find_bash_retry_sequences_def bash_retry_loop_fst
    by (simp add: sorted_wrt_filter del: sorted_wrt_upt)
qed (simp_all add: bash_example_retry bash_example_gap)

theorem bash_retry_matches_witness:
  "(0, 3) \<in> set (find_bash_retry_sequences
       [example_event ''Bash'' False, example_event ''Read'' True, example_event ''Bash'' True]) \<and>
   find_bash_retry_sequences
       [example_event ''Bash'' False, example_event ''Read'' True, example_event ''Bash'' True] = [(0, 3)] \<and>
   find_bash_retry_sequences
       [example_event ''Bash'' False, example_event ''Read'' True, example_event ''Read'' True,
        example_event ''Read'' True, example_event ''Read'' True, example_event ''Read'' True,
        example_event ''Bash'' True] = []"
proof -
  let ?a = "example_event ''Bash'' False" and ?r = "example_event ''Read'' True"
    and ?b = "example_event ''Bash'' True"
  have w: "first_in_window (\<lambda>ev. tool_name ev = ''Bash'') [?a, ?r, ?b] 0 2"
    by (auto simp: first_in_window_def example_event_def less_Suc_eq)
  have c1: "(0, 3) \<in> set (find_bash_retry_sequences [?a, ?r, ?b])"
    using bash_retry_matches[where s = 0 and e = 3 and events = "[?a, ?r, ?b]", THEN conjunct1] w
    by (simp add: example_event_def)
  have c2: "find_bash_retry_sequences [?a, ?r, ?b] = [(0, 3)]"
    using bash_retry_matches[where a = ?a and r = ?r and b = ?b,
        THEN conjunct2, THEN conjunct2, THEN conjunct1]
    by (simp add: example_event_def)
  have c3: "find_bash_retry_sequences [?a, ?r, ?r, ?r, ?r, ?r, ?b] = []"
    using bash_retry_matches[where a = ?a and b = ?b and ?r1.0 = ?r and ?r2.0 = ?r and ?r3.0 = ?r
        and ?r4.0 = ?r and ?r5.0 = ?r, THEN conjunct2, THEN conjunct2, THEN conjunct2]
    by (simp add: example_event_def)
  from c1 c2 c3 show ?thesis by blast
qed

section \<open>Double arithmetic\<close>

text \<open>
  A double is computed from the power of two that scales the argument into \<open>[2^52, 2^53)\<close>
  and the integer nearest to the scaled argument.
\<close>

lemma scale53_up:
  "0 < x \<Longrightarrow> 2 ^ 52 \<le> x * 2 ^ k \<Longrightarrow> x * 2 ^ k < 2 ^ 53 \<Longrightarrow> k \<le> n \<Longrightarrow>
   scale53 n x e = (x * 2 ^ k, e - int k)"
proof (induction k arbitrary: x e n)
  case 0
  then show ?case by (cases n) simp_all
next
  case (Suc k)
  from Suc.prems obtain n' where n: "n = Suc n'" "k \<le> n'" by (cases n) auto
  have "x * 2 \<le> x * 2 ^ Suc k"
    using Suc.prems(1) by simp
  with Suc.prems(3) have small: "x < 2 ^ 52" by simp
  have "scale53 n x e = scale53 n' (x * 2) (e - 1)"
    using small n by simp
  also have "\<dots> = (x * 2 * 2 ^ k, e - 1 - int k)"
    using Suc.IH[of "x * 2" n' "e - 1"] Suc.prems n by (simp add: mult.assoc)
  finally show ?case by (simp add: mult.assoc)
qed

lemma pow2_neg: "pow2 (- int k) = 1 / 2 ^ k"
proof (cases "k = 0")
  case True
  then show ?thesis by (simp add: pow2_def)
next
  case False
  then have "\<not> 0 \<le> - int k" "nat (- (- int k)) = k" by simp_all
  then show ?thesis unfolding pow2_def by simp
qed

lemma round_half_even_eq:
  assumes "of_int m - 1 / 2 < x" "x < of_int m + 1 / 2"
  shows "round_half_even x = m"
proof (cases "of_int m \<le> x")
  case True
  then have "\<lfloor>x\<rfloor> = m" using assms(2) by (intro floor_unique) simp_all
  then show ?thesis using assms(2) by (simp add: round_half_even_def Let_def)
next
  case False
  then have f: "\<lfloor>x\<rfloor> = m - 1" using assms(1) by (intro floor_unique) simp_all
  have "\<not> x - of_int (m - 1) < 1 / 2" "x - of_int (m - 1) > 1 / 2" using assms(1) by simp_all
  then show ?thesis unfolding round_half_even_def Let_def f by simp
qed

lemma round_f64_val:
  assumes "0 < x" "2 ^ 52 \<le> x * 2 ^ k" "x * 2 ^ k < 2 ^ 53" "k \<le> 2200"
    and "of_int m - 1 / 2 < x * 2 ^ k" "x * 2 ^ k < of_int m + 1 / 2"
  shows "round_f64 x = of_int m / 2 ^ k"
proof -
  have "scale53 2200 \<bar>x\<bar> 0 = (x * 2 ^ k, - int k)"
    using scale53_up[of x k 2200 0] assms by simp
  moreover have "round_half_even (x * 2 ^ k) = m"
    using assms(5,6) by (rule round_half_even_eq)
  ultimately show ?thesis using assms(1) by (simp add: round_f64_def pow2_neg)
qed

text \<open>Rounding to a double keeps a value non-negative, and keeps it at most 1.\<close>

lemma round_half_even_nonneg: "0 \<le> x \<Longrightarrow> 0 \<le> round_half_even x"
  by (simp add: round_half_even_def Let_def)

lemma round_half_even_le:
  assumes "x \<le> of_int N"
  shows "round_half_even x \<le> N"
proof (cases "\<lfloor>x\<rfloor> = N")
  case True
  then have "of_int N \<le> x" using of_int_floor_le[of x] by simp
  with assms have "x = of_int N" by simp
  then show ?thesis by (simp add: round_half_even_def Let_def)
next
  case False
  have "\<lfloor>x\<rfloor> \<le> N" using assms by (simp add: floor_le_iff)
  with False have "\<lfloor>x\<rfloor> + 1 \<le> N" by simp
  then show ?thesis by (simp add: round_half_even_def Let_def)
qed

lemma scale53_small:
  "0 < x \<Longrightarrow> x < 2 ^ 53 \<Longrightarrow> \<exists>k. scale53 n x e = (x * 2 ^ k, e - int k)"
proof (induction n arbitrary: x e)
  case 0
  have "scale53 0 x e = (x * 2 ^ 0, e - int 0)" by simp
  then show ?case by blast
next
  case (Suc n)
  show ?case
  proof (cases "x < 2 ^ 52")
    case True
    then have "x * 2 < 2 ^ 53" by simp
    from Suc.IH[OF _ this, of "e - 1"] Suc.prems(1)
    obtain k where "scale53 n (x * 2) (e - 1) = (x * 2 * 2 ^ k, e - 1 - int k)" by auto
    then have "scale53 (Suc n) x e = (x * 2 ^ Suc k, e - int (Suc k))"
      using True Suc.prems(2) by (simp add: mult.assoc)
    then show ?thesis by blast
  next
    case False
    then have "scale53 (Suc n) x e = (x * 2 ^ 0, e - int 0)" using Suc.prems(2) by simp
    then show ?thesis by blast
  qed
qed

lemma scale53_pos: "0 < x \<Longrightarrow> 0 < fst (scale53 n x e)"
  by (induction n arbitrary: x e) simp_all

lemma pow2_nonneg: "0 \<le> pow2 e"
  by (simp add: pow2_def)

lemma round_f64_nonneg:
  assumes "0 \<le> x"
  shows "0 \<le> round_f64 x"
proof (cases "x = 0")
  case True
  then show ?thesis by (simp add: round_f64_def)
next
  case False
  with assms have p: "0 < x" by simp
  obtain y e where s: "scale53 2200 \<bar>x\<bar> 0 = (y, e)" by (cases "scale53 2200 \<bar>x\<bar> 0")
  have "0 < y" using scale53_pos[of "\<bar>x\<bar>" 2200 0] p s by simp
  then have "0 \<le> round_half_even y" by (simp add: round_half_even_nonneg)
  then have "0 \<le> of_int (round_half_even y) * pow2 e"
    using pow2_nonneg[of e] by simp
  then show ?thesis using p s by (simp add: round_f64_def)
qed

lemma round_f64_le_one:
  assumes "0 \<le> x" "x \<le> 1"
  shows "round_f64 x \<le> 1"
proof (cases "x = 0")
  case True
  then show ?thesis by (simp add: round_f64_def)
next
  case False
  with assms have p: "0 < x" by simp
  have "x < 2 ^ 53" using assms(2) by simp
  from scale53_small[OF p this, of 2200 0]
  obtain k where s: "scale53 2200 \<bar>x\<bar> 0 = (x * 2 ^ k, - int k)" using p by auto
  have "x * 2 ^ k \<le> 1 * 2 ^ k" using assms(2) by (intro mult_right_mono) simp_all
  then have "x * 2 ^ k \<le> of_int (2 ^ k)" by simp
  then have "round_half_even (x * 2 ^ k) \<le> 2 ^ k" by (rule round_half_even_le)
  then have "(of_int (round_half_even (x * 2 ^ k)) :: rat) \<le> of_int (2 ^ k)"
    by (simp only: of_int_le_iff)
  then have "(of_int (round_half_even (x * 2 ^ k)) :: rat) / 2 ^ k \<le> 1"
    by (simp add: divide_le_eq)
  then show ?thesis using p s by (simp add: round_f64_def pow2_neg)
qed

lemma round_f64_quarter_half: "round_f64 (1 / 4) = 1 / 4" "round_f64 (1 / 2) = 1 / 2"
proof -
  have "round_f64 (1 / 4) = of_int (2 ^ 52) / 2 ^ 54"
    by (rule round_f64_val) simp_all
  then show "round_f64 (1 / 4) = 1 / 4" by simp
  have "round_f64 (1 / 2) = of_int (2 ^ 52) / 2 ^ 53"
    by (rule round_f64_val) simp_all
  then show "round_f64 (1 / 2) = 1 / 2" by simp
qed


section \<open>Properties of the record reader and the event extractor\<close>



lemma parse_lines_raw_objects:
  "\<forall>line \<in> set lines. loads (str_strip L line) =
      (case json_loads L (str_strip L line) of Some e \<Rightarrow> Loaded (JsonObject e) | None \<Rightarrow> JSONDecodeError) \<Longrightarrow>
   parse_lines_raw L loads (map Line lines) = map JsonObject (parse_lines L lines)"
  by (induction lines) (auto simp: Let_def split: option.splits)

lemma analyze_values_objects:
  "analyze_values L st (map JsonObject es) = Inr (foldl (analyze_entry L) st es)"
  by (induction es arbitrary: st) auto

lemma extract_values_objects:
  "extract_values L st (map JsonObject es) = Inr (foldl (extract_entry L) st es)"
  by (induction es arbitrary: st) auto

text \<open>
  On a file whose lines are all delivered and each decode to an object or raise
  \<^verbatim>\<open>JSONDecodeError\<close>, the reader in full, the analyzer and the extractor are \<^verbatim>\<open>parse_jsonl\<close>,
  \<^verbatim>\<open>analyze_session\<close> and \<^verbatim>\<open>extract_tool_events\<close>.
\<close>

lemma raw_objects:
  assumes "\<forall>line \<in> set lines. loads (str_strip L line) =
      (case json_loads L (str_strip L line) of Some e \<Rightarrow> Loaded (JsonObject e) | None \<Rightarrow> JSONDecodeError)"
  shows "parse_jsonl_raw L loads (Some (map Line lines)) = map JsonObject (parse_jsonl L (Some lines))"
    and "analyze_session_raw L loads m (Some (map Line lines)) = Inr (analyze_session L m (Some lines))"
    and "extract_tool_events_raw L loads (Some (map Line lines)) = Inr (extract_tool_events L (Some lines))"
  using parse_lines_raw_objects[OF assms]
  by (simp_all add: parse_jsonl_raw_def parse_jsonl_def analyze_session_raw_def analyze_session_def
      extract_tool_events_raw_def extract_tool_events_def analyze_values_objects
      extract_values_objects Let_def)

lemma parse_lines_raw_typed:
  "JsonOther \<notin> set (parse_lines_raw L loads steps) \<Longrightarrow>
   parse_lines_raw L loads steps =
     map JsonObject (parse_lines (L\<lparr>json_loads := typed_loads loads\<rparr>) (delivered_lines L loads steps))"
proof (induction L loads steps rule: parse_lines_raw.induct)
  case (1 L loads)
  then show ?case by simp
next
  case (2 L loads rest)
  then show ?case by simp
next
  case (3 L loads line rest)
  show ?case
  proof (cases "str_strip L line = []")
    case True
    with 3 show ?thesis by (simp add: Let_def)
  next
    case ne: False
    show ?thesis
    proof (cases "loads (str_strip L line)")
      case (Loaded v)
      show ?thesis
      proof (cases v)
        case (JsonObject e)
        with 3 ne Loaded show ?thesis by (simp add: Let_def typed_loads_def)
      next
        case JsonOther
        with "3.prems" ne Loaded show ?thesis by (simp add: Let_def)
      qed
    next
      case JSONDecodeError
      with 3 ne show ?thesis by (simp add: Let_def typed_loads_def)
    next
      case OtherException
      with ne show ?thesis by (simp add: Let_def)
    qed
  qed
qed

lemma analyze_entry_loads: "analyze_entry (L\<lparr>json_loads := f\<rparr>) st e = analyze_entry L st e"
  by (simp add: analyze_entry_def on_user_message_def contains_rejection_def Let_def)

lemma extract_entry_loads: "extract_entry (L\<lparr>json_loads := f\<rparr>) st e = extract_entry L st e"
proof -
  have c: "create_input_preview (L\<lparr>json_loads := f\<rparr>) name ti = create_input_preview L name ti"
    for name ti
    by (cases ti) (simp_all add: create_input_preview_def)
  have "extract_item (L\<lparr>json_loads := f\<rparr>) ts cm events item = extract_item L ts cm events item"
    for ts cm events item
    by (cases item) (simp_all add: extract_item_def c)
  then have eq: "extract_item (L\<lparr>json_loads := f\<rparr>) = extract_item L"
    by (intro ext)
  show ?thesis by (simp only: extract_entry_def eq)
qed

lemma analyze_values_other:
  "JsonOther \<in> set vs \<Longrightarrow> analyze_values L st vs = Inl AttributeError"
  by (induction L st vs rule: analyze_values.induct) auto

lemma extract_values_other:
  "JsonOther \<in> set vs \<Longrightarrow> extract_values L st vs = Inl AttributeError"
  by (induction L st vs rule: extract_values.induct) auto

text \<open>
  A run on the reader in full raises \<^verbatim>\<open>AttributeError\<close> when a record is not an object;
  otherwise it is the run of \<^verbatim>\<open>analyze_session\<close>, or of \<^verbatim>\<open>extract_tool_events\<close>, on the lines
  delivered before the stream ended. What is proved of these two functions holds of every
  run that returns.
\<close>

lemma raw_run:
  "analyze_session_raw L loads m src =
     (if JsonOther \<in> set (parse_jsonl_raw L loads src) then Inl AttributeError
      else Inr (analyze_session (L\<lparr>json_loads := typed_loads loads\<rparr>) m
                  (map_option (delivered_lines L loads) src)))"
  "extract_tool_events_raw L loads src =
     (if JsonOther \<in> set (parse_jsonl_raw L loads src) then Inl AttributeError
      else Inr (extract_tool_events (L\<lparr>json_loads := typed_loads loads\<rparr>)
                  (map_option (delivered_lines L loads) src)))"
proof -
  let ?L = "L\<lparr>json_loads := typed_loads loads\<rparr>"
  have ae: "analyze_entry ?L = analyze_entry L" by (intro ext) (rule analyze_entry_loads)
  have ee: "extract_entry ?L = extract_entry L" by (intro ext) (rule extract_entry_loads)
  have p: "parse_jsonl_raw L loads src =
             map JsonObject (parse_jsonl ?L (map_option (delivered_lines L loads) src))"
    if "JsonOther \<notin> set (parse_jsonl_raw L loads src)"
    using that parse_lines_raw_typed[of L loads]
    by (cases src) (simp_all add: parse_jsonl_raw_def parse_jsonl_def)
  show "analyze_session_raw L loads m src =
     (if JsonOther \<in> set (parse_jsonl_raw L loads src) then Inl AttributeError
      else Inr (analyze_session ?L m (map_option (delivered_lines L loads) src)))"
  proof (cases "JsonOther \<in> set (parse_jsonl_raw L loads src)")
    case True
    then show ?thesis by (simp add: analyze_session_raw_def analyze_values_other)
  next
    case False
    have "analyze_session_raw L loads m src =
        (case analyze_values L
             \<lparr>metrics = m, session = zero_session, recent_tools = [], recent_bash_failed = False\<rparr>
             (map JsonObject (parse_jsonl ?L (map_option (delivered_lines L loads) src))) of
           Inl err \<Rightarrow> Inl err
         | Inr st \<Rightarrow> Inr (session st, metrics st))"
      using p[OF False] by (simp only: analyze_session_raw_def)
    then show ?thesis using False
      by (simp add: analyze_values_objects analyze_session_def ae Let_def)
  qed
  show "extract_tool_events_raw L loads src =
     (if JsonOther \<in> set (parse_jsonl_raw L loads src) then Inl AttributeError
      else Inr (extract_tool_events ?L (map_option (delivered_lines L loads) src)))"
  proof (cases "JsonOther \<in> set (parse_jsonl_raw L loads src)")
    case True
    then show ?thesis by (simp add: extract_tool_events_raw_def extract_values_other)
  next
    case False
    have "extract_tool_events_raw L loads src =
        (case extract_values L ([], None)
             (map JsonObject (parse_jsonl ?L (map_option (delivered_lines L loads) src))) of
           Inl err \<Rightarrow> Inl err
         | Inr st \<Rightarrow> Inr (fst st))"
      using p[OF False] by (simp only: extract_tool_events_raw_def)
    then show ?thesis using False
      by (simp add: extract_values_objects extract_tool_events_def ee)
  qed
qed









section \<open>Properties of the composite scores\<close>
















section \<open>Properties of the verification analyzer\<close>

subsection \<open>The counters and the rates\<close>

lemma counts_ok_item: "counts_ok (metrics st) \<Longrightarrow> counts_ok (metrics (analyze_item st item))"
  by (cases item) (simp_all add: analyze_item_def on_tool_use_def on_tool_result_def Let_def counts_ok_def)

lemma counts_ok_items: "counts_ok (metrics st) \<Longrightarrow> counts_ok (metrics (foldl analyze_item st items))"
  by (induction items arbitrary: st) (simp_all add: counts_ok_item)

lemma counts_ok_user: "counts_ok (metrics st) \<Longrightarrow> counts_ok (metrics (on_user_message L st c))"
  by (simp add: on_user_message_def Let_def counts_ok_def)

lemma counts_ok_entry: "counts_ok (metrics st) \<Longrightarrow> counts_ok (metrics (analyze_entry L st e))"
  by (simp add: analyze_entry_def Let_def counts_ok_items counts_ok_user split: content.splits)

lemma counts_ok_entries:
  "counts_ok (metrics st) \<Longrightarrow> counts_ok (metrics (foldl (analyze_entry L) st es))"
  by (induction es arbitrary: st) (simp_all add: counts_ok_entry)

lemma counts_ok_session: "counts_ok m \<Longrightarrow> counts_ok (snd (analyze_session L m file))"
  by (simp add: analyze_session_def Let_def counts_ok_entries)

lemma counts_ok_run_loop: "counts_ok m \<Longrightarrow> counts_ok (run_loop L m files)"
  by (induction files arbitrary: m) (auto simp: counts_ok_session)

lemma counts_ok_run: "counts_ok (run_metrics L files limit)"
proof -
  have "counts_ok zero_metrics" by (simp add: counts_ok_def zero_metrics_def)
  then show ?thesis by (simp add: run_metrics_def counts_ok_run_loop)
qed

lemma pend_ok_item:
  "one_error_per_use p (item # rest) \<Longrightarrow> pend_ok p (metrics st) \<Longrightarrow>
   \<exists>p'. one_error_per_use p' rest \<and> pend_ok p' (metrics (analyze_item st item))"
proof (cases item)
  case (ToolUse name tool_input)
  assume "one_error_per_use p (item # rest)" "pend_ok p (metrics st)"
  then have "one_error_per_use True rest \<and> pend_ok True (metrics (analyze_item st item))"
    using ToolUse by (simp add: analyze_item_def on_tool_use_def Let_def pend_ok_def split: if_splits)
  then show ?thesis by blast
next
  case (ToolResult is_err)
  assume a: "one_error_per_use p (item # rest)" "pend_ok p (metrics st)"
  show ?thesis
  proof (cases is_err)
    case True
    with a ToolResult have "one_error_per_use False rest \<and> pend_ok False (metrics (analyze_item st item))"
      by (simp add: analyze_item_def on_tool_result_def Let_def pend_ok_def)
    then show ?thesis by blast
  next
    case False
    with a ToolResult have "one_error_per_use p rest \<and> pend_ok p (metrics (analyze_item st item))"
      by (simp add: analyze_item_def on_tool_result_def)
    then show ?thesis by blast
  qed
next
  case (TextItem t)
  assume "one_error_per_use p (item # rest)" "pend_ok p (metrics st)"
  with TextItem have "one_error_per_use p rest \<and> pend_ok p (metrics (analyze_item st item))"
    by (simp add: analyze_item_def)
  then show ?thesis by blast
next
  case OtherItem
  assume "one_error_per_use p (item # rest)" "pend_ok p (metrics st)"
  with OtherItem have "one_error_per_use p rest \<and> pend_ok p (metrics (analyze_item st item))"
    by (simp add: analyze_item_def)
  then show ?thesis by blast
qed

lemma pend_ok_items:
  "one_error_per_use p (items @ rest) \<Longrightarrow> pend_ok p (metrics st) \<Longrightarrow>
   \<exists>p'. one_error_per_use p' rest \<and> pend_ok p' (metrics (foldl analyze_item st items))"
proof (induction items arbitrary: p st)
  case Nil
  then show ?case by auto
next
  case (Cons item items)
  from pend_ok_item[of p item "items @ rest" st] Cons.prems
  obtain p1 where "one_error_per_use p1 (items @ rest)" "pend_ok p1 (metrics (analyze_item st item))"
    by auto
  from Cons.IH[OF this] show ?case by simp
qed

lemma pend_ok_user: "pend_ok p (metrics (on_user_message L st c)) = pend_ok p (metrics st)"
  by (simp add: on_user_message_def Let_def pend_ok_def)

lemma pend_ok_entry:
  "one_error_per_use p (assistant_items e @ rest) \<Longrightarrow> pend_ok p (metrics st) \<Longrightarrow>
   \<exists>p'. one_error_per_use p' rest \<and> pend_ok p' (metrics (analyze_entry L st e))"
proof -
  assume a: "one_error_per_use p (assistant_items e @ rest)" "pend_ok p (metrics st)"
  show ?thesis
  proof (cases "entry_type e \<noteq> Some ''summary'' \<and> msg_role (get_message e) = Some ''assistant'' \<and>
      (\<exists>items. msg_content (get_message e) = ContentList items)")
    case True
    then obtain items where i: "msg_content (get_message e) = ContentList items" by blast
    with True have "assistant_items e = items" "analyze_entry L st e = foldl analyze_item st items"
      by (simp_all add: assistant_items_def analyze_entry_def Let_def)
    with a pend_ok_items[of p items rest st] show ?thesis by simp
  next
    case False
    then have "assistant_items e = []"
      by (auto simp: assistant_items_def split: content.splits)
    moreover from False have "pend_ok p (metrics (analyze_entry L st e)) = pend_ok p (metrics st)"
      by (auto simp: analyze_entry_def Let_def pend_ok_user split: content.splits)
    ultimately show ?thesis using a by auto
  qed
qed

lemma pend_ok_entries:
  "one_error_per_use p (concat (map assistant_items es)) \<Longrightarrow> pend_ok p (metrics st) \<Longrightarrow>
   \<exists>p'. pend_ok p' (metrics (foldl (analyze_entry L) st es))"
proof (induction es arbitrary: p st)
  case Nil
  then show ?case by auto
next
  case (Cons e es)
  from pend_ok_entry[of p e "concat (map assistant_items es)" st L] Cons.prems
  obtain p1 where "one_error_per_use p1 (concat (map assistant_items es))"
    "pend_ok p1 (metrics (analyze_entry L st e))"
    by auto
  from Cons.IH[OF this] show ?case by simp
qed

lemma pend_ok_session:
  assumes "one_error_per_use False (session_items L file)" "pend_ok False m"
  shows "pend_ok False (snd (analyze_session L m file))"
proof -
  let ?st = "\<lparr>metrics = m, session = zero_session, recent_tools = [], recent_bash_failed = False\<rparr>"
  from pend_ok_entries[of False "parse_jsonl L file" ?st L] assms
  obtain p' where "pend_ok p' (metrics (foldl (analyze_entry L) ?st (parse_jsonl L file)))"
    by (auto simp: session_items_def)
  then show ?thesis
    by (simp add: analyze_session_def Let_def pend_ok_def split: if_splits)
qed

lemma pend_ok_run_loop:
  "\<forall>(name, file) \<in> set files. \<not> str_contains ''agent-'' name \<longrightarrow>
      one_error_per_use False (session_items L file) \<Longrightarrow>
   pend_ok False m \<Longrightarrow> pend_ok False (run_loop L m files)"
proof (induction files arbitrary: m)
  case Nil
  then show ?case by simp
next
  case (Cons f files)
  obtain name src where f: "f = (name, src)" by (cases f)
  show ?case
  proof (cases "str_contains ''agent-'' name")
    case True
    then show ?thesis using Cons f by simp
  next
    case False
    with Cons.prems f have "pend_ok False (snd (analyze_session L m src))"
      by (auto intro: pend_ok_session)
    with Cons.IH[of "snd (analyze_session L m src)"] Cons.prems(1) False f show ?thesis by simp
  qed
qed

lemma cnt_item:
  "tool_errors (metrics (analyze_item st item)) =
     tool_errors (metrics st) + int (length (filter is_error_result [item])) \<and>
   total_tool_uses (metrics (analyze_item st item)) =
     total_tool_uses (metrics st) + int (length (filter is_tool_use [item]))"
  by (cases item) (simp_all add: analyze_item_def on_tool_use_def on_tool_result_def Let_def)

lemma cnt_items:
  "tool_errors (metrics (foldl analyze_item st items)) =
     tool_errors (metrics st) + int (length (filter is_error_result items)) \<and>
   total_tool_uses (metrics (foldl analyze_item st items)) =
     total_tool_uses (metrics st) + int (length (filter is_tool_use items))"
proof (induction items arbitrary: st)
  case Nil
  then show ?case by simp
next
  case (Cons item items)
  show ?case using Cons.IH[of "analyze_item st item"] cnt_item[of st item] by simp
qed

lemma cnt_user:
  "tool_errors (metrics (on_user_message L st c)) = tool_errors (metrics st) \<and>
   total_tool_uses (metrics (on_user_message L st c)) = total_tool_uses (metrics st)"
  by (simp add: on_user_message_def Let_def)

lemma cnt_entry:
  "tool_errors (metrics (analyze_entry L st e)) =
     tool_errors (metrics st) + int (length (filter is_error_result (assistant_items e))) \<and>
   total_tool_uses (metrics (analyze_entry L st e)) =
     total_tool_uses (metrics st) + int (length (filter is_tool_use (assistant_items e)))"
proof (cases "entry_type e \<noteq> Some ''summary'' \<and> msg_role (get_message e) = Some ''assistant'' \<and>
      (\<exists>items. msg_content (get_message e) = ContentList items)")
  case True
  then obtain items where i: "msg_content (get_message e) = ContentList items" by blast
  with True have "assistant_items e = items" "analyze_entry L st e = foldl analyze_item st items"
    by (simp_all add: assistant_items_def analyze_entry_def Let_def)
  then show ?thesis using cnt_items[of st items] by simp
next
  case False
  then have a: "assistant_items e = []"
    by (auto simp: assistant_items_def split: content.splits)
  from False have "metrics (analyze_entry L st e) = metrics st \<or>
      analyze_entry L st e = on_user_message L st (msg_content (get_message e))"
    by (auto simp: analyze_entry_def Let_def split: content.splits)
  then show ?thesis using a cnt_user[of L st "msg_content (get_message e)"] by auto
qed

lemma cnt_entries:
  "tool_errors (metrics (foldl (analyze_entry L) st es)) =
     tool_errors (metrics st) + int (length (filter is_error_result (concat (map assistant_items es)))) \<and>
   total_tool_uses (metrics (foldl (analyze_entry L) st es)) =
     total_tool_uses (metrics st) + int (length (filter is_tool_use (concat (map assistant_items es))))"
proof (induction es arbitrary: st)
  case Nil
  then show ?case by simp
next
  case (Cons e es)
  show ?case using Cons.IH[of "analyze_entry L st e"] cnt_entry[of L st e] by simp
qed

lemma cnt_session:
  "tool_errors (snd (analyze_session L m src)) =
     tool_errors m + int (length (filter is_error_result (session_items L src))) \<and>
   total_tool_uses (snd (analyze_session L m src)) =
     total_tool_uses m + int (length (filter is_tool_use (session_items L src)))"
  using cnt_entries[of L "\<lparr>metrics = m, session = zero_session, recent_tools = [],
      recent_bash_failed = False\<rparr>" "parse_jsonl L src"]
  by (simp add: analyze_session_def session_items_def Let_def)

lemma cnt_run_loop:
  "tool_errors (run_loop L m fs) =
     tool_errors m + int (length (filter is_error_result
       (concat (map (\<lambda>(name, src). if str_contains ''agent-'' name then [] else session_items L src) fs)))) \<and>
   total_tool_uses (run_loop L m fs) =
     total_tool_uses m + int (length (filter is_tool_use
       (concat (map (\<lambda>(name, src). if str_contains ''agent-'' name then [] else session_items L src) fs))))"
proof (induction fs arbitrary: m)
  case Nil
  then show ?case by simp
next
  case (Cons f fs)
  obtain name src where f: "f = (name, src)" by (cases f)
  show ?case
  proof (cases "str_contains ''agent-'' name")
    case True
    then show ?thesis using Cons.IH[of m] f by simp
  next
    case False
    then show ?thesis
      using Cons.IH[of "snd (analyze_session L m src)"] cnt_session[of L m src] f by simp
  qed
qed

lemma cnt_run:
  "tool_errors (run_metrics L files limit) =
     int (length (filter is_error_result (scanned_items L files limit)))"
  "total_tool_uses (run_metrics L files limit) =
     int (length (filter is_tool_use (scanned_items L files limit)))"
  using cnt_run_loop[of L zero_metrics "limit_files limit files"]
  by (simp_all add: run_metrics_def scanned_items_def zero_metrics_def)

lemma rate_bounds:
  fixes a b :: int and rnd :: "rat \<Rightarrow> rat"
  assumes "\<forall>q. 0 \<le> q \<longrightarrow> 0 \<le> rnd q" "\<forall>q. 0 \<le> q \<and> q \<le> 1 \<longrightarrow> rnd q \<le> 1"
  shows "0 \<le> a \<Longrightarrow> 0 < b \<Longrightarrow> 0 \<le> rnd (of_int a / of_int b)"
    and "0 \<le> a \<Longrightarrow> a \<le> b \<Longrightarrow> 0 < b \<Longrightarrow> rnd (of_int a / of_int b) \<le> 1"
proof -
  show "0 \<le> rnd (of_int a / of_int b)" if "0 \<le> a" "0 < b"
  proof -
    have "(0::rat) \<le> of_int a / of_int b" using that by simp
    then show ?thesis using assms(1) by blast
  qed
  show "rnd (of_int a / of_int b) \<le> 1" if "0 \<le> a" "a \<le> b" "0 < b"
  proof -
    have "(0::rat) \<le> of_int a / of_int b" "(of_int a / of_int b :: rat) \<le> 1" using that by simp_all
    then show ?thesis using assms(2) by blast
  qed
qed

text \<open>
  C1, as amended. For every list of transcript files, one session or a corpus, after \<^verbatim>\<open>run\<close>:
  the correction rate and the rejection rate lie in \<open>[0, 1]\<close>; the error rate and the Bash
  failure rate are not negative, and the count of Bash failures is at most the count of
  tool errors. The count of tool errors is the number of error results, and the count of
  tool uses the number of tool uses, among the items of the scanned sessions: results are
  not paired with tool uses. So the error rate and the Bash failure rate are at most 1
  whenever the scanned sessions hold no more error results than tool uses, and in exact
  arithmetic the error rate is at most 1 only then, or when there is no tool use and the
  rate is 0. There are no more error results than tool uses when in every scanned session
  every error result comes after a tool use and is the first error result since the latest
  tool use before it. The rates are computed with any rounding that keeps a non-negative
  value non-negative and a value of \<open>[0, 1]\<close> at most 1: exact arithmetic, and the division
  of doubles (\<open>round_f64_nonneg\<close>, \<open>round_f64_le_one\<close>).
\<close>

theorem rates_in_unit_interval:
  assumes "\<forall>q. 0 \<le> q \<longrightarrow> 0 \<le> rnd q" and "\<forall>q. 0 \<le> q \<and> q \<le> 1 \<longrightarrow> rnd q \<le> 1"
    and m: "m = run_metrics L files limit"
  shows "0 \<le> correction_rate rnd m \<and> correction_rate rnd m \<le> 1 \<and>
         0 \<le> user_rejection_rate rnd m \<and> user_rejection_rate rnd m \<le> 1 \<and>
         0 \<le> error_rate rnd m \<and> 0 \<le> bash_failure_rate rnd m \<and>
         0 \<le> bash_failures m \<and> bash_failures m \<le> tool_errors m \<and>
         tool_errors m = int (length (filter is_error_result (scanned_items L files limit))) \<and>
         total_tool_uses m = int (length (filter is_tool_use (scanned_items L files limit))) \<and>
         (tool_errors m \<le> total_tool_uses m \<longrightarrow>
            error_rate rnd m \<le> 1 \<and> bash_failure_rate rnd m \<le> 1) \<and>
         ((\<forall>(name, src) \<in> set (limit_files limit files). \<not> str_contains ''agent-'' name \<longrightarrow>
              one_error_per_use False (session_items L src))
          \<longrightarrow> tool_errors m \<le> total_tool_uses m) \<and>
         (error_rate (\<lambda>x. x) m \<le> 1 \<longleftrightarrow> total_tool_uses m = 0 \<or> tool_errors m \<le> total_tool_uses m)"
proof -
  note rb = rate_bounds[OF assms(1,2)]
  have ok: "counts_ok m" unfolding m by (rule counts_ok_run)
  have te: "tool_errors m = int (length (filter is_error_result (scanned_items L files limit)))"
    and tu: "total_tool_uses m = int (length (filter is_tool_use (scanned_items L files limit)))"
    unfolding m by (rule cnt_run)+
  have e0: "0 \<le> tool_errors m" and u0: "0 \<le> total_tool_uses m"
    using te tu by simp_all
  have c: "0 \<le> correction_rate rnd m \<and> correction_rate rnd m \<le> 1"
    using ok by (simp add: correction_rate_def counts_ok_def rb)
  have u: "0 \<le> user_rejection_rate rnd m \<and> user_rejection_rate rnd m \<le> 1"
    using ok by (simp add: user_rejection_rate_def counts_ok_def rb)
  have n: "0 \<le> error_rate rnd m \<and> 0 \<le> bash_failure_rate rnd m"
    using ok e0 by (simp add: bash_failure_rate_def error_rate_def counts_ok_def rb)
  have b: "0 \<le> bash_failures m \<and> bash_failures m \<le> tool_errors m"
    using ok by (simp add: counts_ok_def)
  have e: "error_rate rnd m \<le> 1 \<and> bash_failure_rate rnd m \<le> 1"
    if h: "tool_errors m \<le> total_tool_uses m"
  proof -
    have "bash_failures m \<le> total_tool_uses m" using b h by simp
    then show ?thesis using h b e0 by (simp add: error_rate_def bash_failure_rate_def rb)
  qed
  have p: "tool_errors m \<le> total_tool_uses m"
    if h: "\<forall>(name, src) \<in> set (limit_files limit files). \<not> str_contains ''agent-'' name \<longrightarrow>
              one_error_per_use False (session_items L src)"
  proof -
    have "pend_ok False zero_metrics" by (simp add: pend_ok_def zero_metrics_def)
    from pend_ok_run_loop[OF h this] show ?thesis
      by (simp add: m run_metrics_def pend_ok_def)
  qed
  have x: "error_rate (\<lambda>x. x) m \<le> 1 \<longleftrightarrow> total_tool_uses m = 0 \<or> tool_errors m \<le> total_tool_uses m"
  proof (cases "total_tool_uses m = 0")
    case True
    then show ?thesis by (simp add: error_rate_def)
  next
    case False
    with u0 have "0 < total_tool_uses m" by simp
    then show ?thesis by (simp add: error_rate_def divide_le_eq)
  qed
  from c u n b te tu e p x show ?thesis by blast
qed

lemma rates_files_metrics:
  "run_metrics rates_lib rates_files None =
     \<lparr>total_tool_uses = 4, tool_errors = 1, bash_failures = 1, bash_retries = 1,
      consecutive_edits_same_file = 1, user_rejection_messages = 1, total_user_messages = 2\<rparr>"
  by code_simp

lemma rates_files_ok:
  "\<forall>(name, src) \<in> set (limit_files None rates_files). \<not> str_contains ''agent-'' name \<longrightarrow>
      one_error_per_use False (session_items rates_lib src)"
proof -
  have h: "one_error_per_use False (session_items rates_lib (Some [''fail'', ''retry'', ''fix'', ''no'', ''thanks'']))"
    by code_simp
  have a: "str_contains ''agent-'' ''agent-x.jsonl''" "\<not> str_contains ''agent-'' ''s1.jsonl''"
    by code_simp+
  show ?thesis using h a by (simp add: limit_files_def rates_files_def)
qed

theorem rates_in_unit_interval_witness:
  "tool_errors (run_metrics rates_lib rates_files None) = 1 \<and>
   total_tool_uses (run_metrics rates_lib rates_files None) = 4 \<and>
   error_rate round_f64 (run_metrics rates_lib rates_files None) = 1 / 4 \<and>
   error_rate round_f64 (run_metrics rates_lib rates_files None) \<le> 1 \<and>
   bash_failure_rate round_f64 (run_metrics rates_lib rates_files None) = 1 / 4 \<and>
   bash_failure_rate round_f64 (run_metrics rates_lib rates_files None) \<le> 1 \<and>
   correction_rate round_f64 (run_metrics rates_lib rates_files None) = 1 / 4 \<and>
   correction_rate round_f64 (run_metrics rates_lib rates_files None) \<le> 1 \<and>
   user_rejection_rate round_f64 (run_metrics rates_lib rates_files None) = 1 / 2 \<and>
   user_rejection_rate round_f64 (run_metrics rates_lib rates_files None) \<le> 1 \<and>
   length (filter is_error_result (scanned_items rates_lib rates_files None)) = 1 \<and>
   length (filter is_tool_use (scanned_items rates_lib rates_files None)) = 4 \<and>
   error_rate (\<lambda>x. x) (run_metrics rates_lib rates_files None) \<le> 1"
proof -
  let ?m = "run_metrics rates_lib rates_files None"
  have r0: "\<forall>q. 0 \<le> q \<longrightarrow> 0 \<le> round_f64 q" by (simp add: round_f64_nonneg)
  have r1: "\<forall>q. 0 \<le> q \<and> q \<le> 1 \<longrightarrow> round_f64 q \<le> 1" by (simp add: round_f64_le_one)
  note t = rates_in_unit_interval[OF r0 r1 refl, of rates_lib rates_files None]
  have le: "tool_errors ?m \<le> total_tool_uses ?m"
    using t rates_files_ok by blast
  have b: "error_rate round_f64 ?m \<le> 1" "bash_failure_rate round_f64 ?m \<le> 1"
    "correction_rate round_f64 ?m \<le> 1" "user_rejection_rate round_f64 ?m \<le> 1"
    "error_rate (\<lambda>x. x) ?m \<le> 1"
    using t le by simp_all
  have n: "int (length (filter is_error_result (scanned_items rates_lib rates_files None))) = tool_errors ?m"
    "int (length (filter is_tool_use (scanned_items rates_lib rates_files None))) = total_tool_uses ?m"
    using t by simp_all
  have v: "tool_errors ?m = 1" "total_tool_uses ?m = 4"
    "error_rate round_f64 ?m = 1 / 4" "bash_failure_rate round_f64 ?m = 1 / 4"
    "correction_rate round_f64 ?m = 1 / 4" "user_rejection_rate round_f64 ?m = 1 / 2"
    by (simp_all add: rates_files_metrics error_rate_def bash_failure_rate_def correction_rate_def
        user_rejection_rate_def round_f64_quarter_half)
  have n': "length (filter is_error_result (scanned_items rates_lib rates_files None)) = 1"
    "length (filter is_tool_use (scanned_items rates_lib rates_files None)) = 4"
    using n v by simp_all
  show ?thesis using b v n' by simp
qed


text \<open>
  C1 as stated fails: the analyzer counts every error result, so a tool use followed by two
  error results gives an error rate of 2, in exact arithmetic and in doubles.
\<close>

theorem error_rate_above_one_counterexample:
  "error_rate id (run_metrics example_lib [(''session.jsonl'', Some [''errors''])] None) = 2 \<and>
   \<not> error_rate id (run_metrics example_lib [(''session.jsonl'', Some [''errors''])] None) \<le> 1 \<and>
   error_rate round_f64 (run_metrics example_lib [(''session.jsonl'', Some [''errors''])] None) = 2 \<and>
   bash_failure_rate round_f64 (run_metrics example_lib [(''session.jsonl'', Some [''errors''])] None) = 2"
proof -
  have m: "run_metrics example_lib [(''session.jsonl'', Some [''errors''])] None =
     \<lparr>total_tool_uses = 1, tool_errors = 2, bash_failures = 2, bash_retries = 0,
      consecutive_edits_same_file = 0, user_rejection_messages = 0, total_user_messages = 0\<rparr>"
    by code_simp
  have "round_f64 2 = of_int (2 ^ 52) / 2 ^ 51"
    by (rule round_f64_val) simp_all
  then have r: "round_f64 2 = 2" by simp
  show ?thesis by (simp add: m error_rate_def bash_failure_rate_def r)
qed

subsection \<open>Immediate corrections\<close>

lemma scan_recent_iff:
  "scan_recent fp xs \<longleftrightarrow> (\<exists>(t, p, s, i) \<in> set xs. t \<in> set EDIT_TOOLS \<and> p = fp)"
  by (induction fp xs rule: scan_recent.induct) auto

lemma on_tool_use_consecutive:
  "sm_consecutive_edits (session (on_tool_use st name tool_input)) =
     sm_consecutive_edits (session st) +
     (if name \<in> set EDIT_TOOLS \<and> truthy (file_path_val tool_input) \<and>
         (\<exists>(t, p, s, i) \<in> set (last5 (recent_tools st)). t \<in> set EDIT_TOOLS \<and> p = file_path_val tool_input)
      then 1 else 0)"
  "consecutive_edits_same_file (metrics (on_tool_use st name tool_input)) =
     consecutive_edits_same_file (metrics st) +
     (if name \<in> set EDIT_TOOLS \<and> truthy (file_path_val tool_input) \<and>
         (\<exists>(t, p, s, i) \<in> set (last5 (recent_tools st)). t \<in> set EDIT_TOOLS \<and> p = file_path_val tool_input)
      then 1 else 0)"
  "recent_tools (on_tool_use st name tool_input) =
     recent_tools st @ [(name, file_path_val tool_input, True, length (recent_tools st))]"
  by (simp_all add: on_tool_use_def Let_def scan_recent_iff)

lemma in_set_drop_nth:
  "x \<in> set (drop k xs) \<longleftrightarrow> (\<exists>j. k \<le> j \<and> j < length xs \<and> xs ! j = x)"
proof
  assume "x \<in> set (drop k xs)"
  then obtain i where "i < length (drop k xs)" "drop k xs ! i = x"
    by (auto simp: in_set_conv_nth)
  then have "k \<le> k + i \<and> k + i < length xs \<and> xs ! (k + i) = x" by auto
  then show "\<exists>j. k \<le> j \<and> j < length xs \<and> xs ! j = x" by blast
next
  assume "\<exists>j. k \<le> j \<and> j < length xs \<and> xs ! j = x"
  then obtain j where j: "k \<le> j" "j < length xs" "xs ! j = x" by blast
  then have "j - k < length (drop k xs)" "drop k xs ! (j - k) = x" by auto
  then show "x \<in> set (drop k xs)" by (metis nth_mem)
qed

lemma recent_edit_iff:
  assumes "map proj rt = us"
  shows "(\<exists>(t, p, s, i) \<in> set (last5 rt). t \<in> set EDIT_TOOLS \<and> p = fp) \<longleftrightarrow>
         (\<exists>j. j < length us \<and> length us \<le> j + 5 \<and> fst (us ! j) \<in> set EDIT_TOOLS \<and> snd (us ! j) = fp)"
proof -
  define Q where "Q r \<longleftrightarrow> fst (proj r) \<in> set EDIT_TOOLS \<and> snd (proj r) = fp" for r
  have len: "length rt = length us" using assms by auto
  have nth: "us ! j = proj (rt ! j)" if "j < length rt" for j
    using assms that by auto
  have "(\<exists>(t, p, s, i) \<in> set (last5 rt). t \<in> set EDIT_TOOLS \<and> p = fp) \<longleftrightarrow>
        (\<exists>r \<in> set (drop (length rt - 5) rt). Q r)"
    by (simp add: last5_def proj_def split_def Q_def)
  also have "\<dots> \<longleftrightarrow> (\<exists>j. length rt - 5 \<le> j \<and> j < length rt \<and> Q (rt ! j))"
  proof
    assume "\<exists>r \<in> set (drop (length rt - 5) rt). Q r"
    then obtain r where r: "r \<in> set (drop (length rt - 5) rt)" "Q r" by blast
    from r(1) obtain j where "length rt - 5 \<le> j" "j < length rt" "rt ! j = r"
      unfolding in_set_drop_nth by blast
    with r(2) show "\<exists>j. length rt - 5 \<le> j \<and> j < length rt \<and> Q (rt ! j)" by blast
  next
    assume "\<exists>j. length rt - 5 \<le> j \<and> j < length rt \<and> Q (rt ! j)"
    then obtain j where j: "length rt - 5 \<le> j" "j < length rt" "Q (rt ! j)" by blast
    then have "rt ! j \<in> set (drop (length rt - 5) rt)"
      unfolding in_set_drop_nth by blast
    with j(3) show "\<exists>r \<in> set (drop (length rt - 5) rt). Q r" by blast
  qed
  also have "\<dots> \<longleftrightarrow> (\<exists>j. j < length us \<and> length us \<le> j + 5 \<and>
        fst (us ! j) \<in> set EDIT_TOOLS \<and> snd (us ! j) = fp)"
  proof -
    have "(length rt - 5 \<le> j \<and> j < length rt \<and> Q (rt ! j)) \<longleftrightarrow>
          (j < length us \<and> length us \<le> j + 5 \<and> fst (us ! j) \<in> set EDIT_TOOLS \<and> snd (us ! j) = fp)" for j
    proof (cases "j < length rt")
      case True
      have "length rt - 5 \<le> j \<longleftrightarrow> length us \<le> j + 5" using len by arith
      then show ?thesis using True len nth[OF True] by (simp add: Q_def)
    next
      case False
      then show ?thesis using len by simp
    qed
    then show ?thesis by simp
  qed
  finally show ?thesis .
qed

lemma is_correction_alt:
  "is_correction us i \<longleftrightarrow>
     fst (us ! i) \<in> set EDIT_TOOLS \<and> truthy (snd (us ! i)) \<and>
     (\<exists>j. j < i \<and> i \<le> j + 5 \<and> fst (us ! j) \<in> set EDIT_TOOLS \<and> snd (us ! j) = snd (us ! i))"
proof -
  have "j \<in> {i - 5 ..< i} \<longleftrightarrow> j < i \<and> i \<le> j + 5" for j by auto
  then show ?thesis unfolding is_correction_def Bex_def by simp
qed

lemma is_correction_append_old:
  assumes "i < length us"
  shows "is_correction (us @ [u]) i = is_correction us i"
proof -
  have a: "(us @ [u]) ! i = us ! i" using assms by (simp add: nth_append)
  have b: "(us @ [u]) ! j = us ! j" if "j < i" for j using that assms by (simp add: nth_append)
  show ?thesis unfolding is_correction_alt a by (simp add: b cong: conj_cong)
qed

lemma is_correction_append_new:
  "is_correction (us @ [u]) (length us) \<longleftrightarrow>
     fst u \<in> set EDIT_TOOLS \<and> truthy (snd u) \<and>
     (\<exists>j. j < length us \<and> length us \<le> j + 5 \<and> fst (us ! j) \<in> set EDIT_TOOLS \<and> snd (us ! j) = snd u)"
proof -
  have b: "(us @ [u]) ! j = us ! j" if "j < length us" for j using that by (simp add: nth_append)
  show ?thesis unfolding is_correction_alt by (simp add: b cong: conj_cong)
qed

lemma corrections_snoc:
  "corrections (us @ [u]) = corrections us + (if is_correction (us @ [u]) (length us) then 1 else 0)"
proof -
  have "filter (is_correction (us @ [u])) [0 ..< length us] = filter (is_correction us) [0 ..< length us]"
    by (rule filter_cong) (simp_all add: is_correction_append_old)
  then show ?thesis by (simp add: corrections_def)
qed

lemma corr_inv_tool_use:
  assumes "corr_inv c0 s0 st us"
  shows "corr_inv c0 s0 (on_tool_use st name tool_input) (us @ [(name, file_path_val tool_input)])"
proof -
  from assms have rt: "map proj (recent_tools st) = us" by (simp add: corr_inv_def)
  have new: "is_correction (us @ [(name, file_path_val tool_input)]) (length us) \<longleftrightarrow>
      name \<in> set EDIT_TOOLS \<and> truthy (file_path_val tool_input) \<and>
      (\<exists>(t, p, s, i) \<in> set (last5 (recent_tools st)). t \<in> set EDIT_TOOLS \<and> p = file_path_val tool_input)"
    unfolding is_correction_append_new recent_edit_iff[OF rt] by simp
  show ?thesis
    using assms unfolding corr_inv_def on_tool_use_consecutive corrections_snoc new
    by (simp add: proj_def)
qed

lemma corr_inv_item:
  "corr_inv c0 s0 st us \<Longrightarrow> corr_inv c0 s0 (analyze_item st item) (us @ tool_uses_of [item])"
proof (cases item)
  case (ToolUse name tool_input)
  assume "corr_inv c0 s0 st us"
  from corr_inv_tool_use[OF this] ToolUse show ?thesis by (simp add: analyze_item_def)
next
  case (ToolResult is_err)
  assume "corr_inv c0 s0 st us"
  with ToolResult show ?thesis
    by (simp add: analyze_item_def on_tool_result_def Let_def corr_inv_def)
qed (simp_all add: analyze_item_def)

lemma tool_uses_of_append: "tool_uses_of (xs @ ys) = tool_uses_of xs @ tool_uses_of ys"
  by (induction xs rule: tool_uses_of.induct) simp_all

lemma corr_inv_items:
  "corr_inv c0 s0 st us \<Longrightarrow> corr_inv c0 s0 (foldl analyze_item st items) (us @ tool_uses_of items)"
proof (induction items arbitrary: st us)
  case Nil
  then show ?case by simp
next
  case (Cons item items)
  from Cons.IH[OF corr_inv_item[OF Cons.prems, of item]]
  show ?case using tool_uses_of_append[of "[item]" items] by simp
qed

lemma corr_inv_user: "corr_inv c0 s0 st us \<Longrightarrow> corr_inv c0 s0 (on_user_message L st c) us"
  by (simp add: on_user_message_def Let_def corr_inv_def)

lemma corr_inv_entry:
  "corr_inv c0 s0 st us \<Longrightarrow> corr_inv c0 s0 (analyze_entry L st e) (us @ tool_uses_of (assistant_items e))"
  by (auto simp: analyze_entry_def assistant_items_def Let_def corr_inv_items corr_inv_user
      split: content.splits)

lemma corr_inv_entries:
  "corr_inv c0 s0 st us \<Longrightarrow>
   corr_inv c0 s0 (foldl (analyze_entry L) st es) (us @ tool_uses_of (concat (map assistant_items es)))"
proof (induction es arbitrary: st us)
  case Nil
  then show ?case by simp
next
  case (Cons e es)
  from Cons.IH[OF corr_inv_entry[OF Cons.prems, of L e]]
  show ?case by (simp add: tool_uses_of_append)
qed

text \<open>
  C4, as amended. An Edit, Write or MultiEdit tool use with a file path increments the
  counter of consecutive edits, by one, exactly when one of the previous five tool uses of
  the session, of whatever tool, is an Edit, Write or MultiEdit of the same path; no other
  tool use increments it. So the counter of a session is the number of its immediate
  corrections, and \<^verbatim>\<open>self.metrics\<close> grows by that number.
\<close>

theorem immediate_correction_window:
  "sm_consecutive_edits (session (on_tool_use st name tool_input)) =
     sm_consecutive_edits (session st) +
     (if name \<in> set EDIT_TOOLS \<and> truthy (file_path_val tool_input) \<and>
         (\<exists>(t, p, s, i) \<in> set (last5 (recent_tools st)). t \<in> set EDIT_TOOLS \<and> p = file_path_val tool_input)
      then 1 else 0) \<and>
   sm_consecutive_edits (fst (analyze_session L m src)) =
     int (corrections (tool_uses_of (session_items L src))) \<and>
   consecutive_edits_same_file (snd (analyze_session L m src)) =
     consecutive_edits_same_file m + int (corrections (tool_uses_of (session_items L src)))"
proof -
  let ?st = "\<lparr>metrics = m, session = zero_session, recent_tools = [], recent_bash_failed = False\<rparr>"
  have "corr_inv (consecutive_edits_same_file m) 0 ?st []"
    by (simp add: corr_inv_def corrections_def zero_session_def)
  from corr_inv_entries[OF this, of L "parse_jsonl L src"]
  have "sm_consecutive_edits (fst (analyze_session L m src)) =
          int (corrections (tool_uses_of (session_items L src))) \<and>
        consecutive_edits_same_file (snd (analyze_session L m src)) =
          consecutive_edits_same_file m + int (corrections (tool_uses_of (session_items L src)))"
    by (simp add: corr_inv_def analyze_session_def session_items_def Let_def)
  then show ?thesis using on_tool_use_consecutive(1)[of st name tool_input] by blast
qed



theorem immediate_correction_window_witness:
  "sm_consecutive_edits (session (on_tool_use example_state ''Edit'' (Some [(''file_path'', ''a.py'')]))) = 1 \<and>
   sm_consecutive_edits (session (on_tool_use example_state ''Edit'' (Some [(''file_path'', ''b.py'')]))) = 0 \<and>
   sm_consecutive_edits (fst (analyze_session example_lib zero_metrics (Some [''edits'', ''edits'']))) = 1"
proof -
  have f: "file_path_val (Some [(''file_path'', ''a.py'')]) = Some ''a.py''"
    "file_path_val (Some [(''file_path'', ''b.py'')]) = Some ''b.py''"
    by (simp_all add: file_path_val_def py_or_def truthy_def)
  have c: "corrections (tool_uses_of (session_items example_lib (Some [''edits'', ''edits'']))) = 1"
    by code_simp
  have c1: "sm_consecutive_edits (session (on_tool_use example_state ''Edit'' (Some [(''file_path'', ''a.py'')]))) = 1"
    using immediate_correction_window[where st = example_state and name = "''Edit''"
        and tool_input = "Some [(''file_path'', ''a.py'')]", THEN conjunct1]
    by (simp add: f example_state_def last5_def EDIT_TOOLS_def truthy_def zero_session_def)
  have c2: "sm_consecutive_edits (session (on_tool_use example_state ''Edit'' (Some [(''file_path'', ''b.py'')]))) = 0"
    using immediate_correction_window[where st = example_state and name = "''Edit''"
        and tool_input = "Some [(''file_path'', ''b.py'')]", THEN conjunct1]
    by (simp add: f example_state_def last5_def EDIT_TOOLS_def truthy_def zero_session_def)
  have c3: "sm_consecutive_edits (fst (analyze_session example_lib zero_metrics (Some [''edits'', ''edits'']))) = 1"
    using immediate_correction_window[where L = example_lib and m = zero_metrics
        and src = "Some [''edits'', ''edits'']", THEN conjunct2, THEN conjunct1]
    by (simp add: c)
  from c1 c2 c3 show ?thesis by blast
qed

text \<open>
  C4 as stated fails: with five reads between two edits of \<^verbatim>\<open>a.py\<close> the first edit is among
  the previous five modification events of the second, but not among its previous five tool
  uses, and nothing is counted.
\<close>

theorem previous_five_modifications_counterexample:
  "sm_consecutive_edits (fst (analyze_session example_lib zero_metrics (Some [''edits'']))) = 0 \<and>
   claimed_correction (tool_uses_of (session_items example_lib (Some [''edits'']))) 6"
  by code_simp

section \<open>Properties of the delegation score\<close>

subsection \<open>Exact arithmetic\<close>

text \<open>
  Every weight lies in \<open>[0, 1]\<close>, an unknown category has the weight 0.5, and in exact
  arithmetic the score of non-negative counts lies in \<open>[0, 1]\<close>; it is 0 when the counts
  sum to 0.
\<close>

lemma weight_of_bounds: "0 \<le> weight_of c \<and> weight_of c \<le> 1"
  by (simp add: weight_of_def DELEGATION_WEIGHTS_def)

lemma foldl_add_weighted_exact:
  "foldl (add_weighted id t) acc cc =
     acc + (\<Sum>(c, n) \<leftarrow> cc. of_int n / of_int t * 100 * weight_of c)"
  by (induction cc arbitrary: acc) (simp_all add: add_weighted_def Let_def split_def)

lemma weighted_sum_bounds:
  assumes "\<forall>(c, n) \<in> set cc. 0 \<le> n" "0 < t"
  shows "0 \<le> (\<Sum>(c, n) \<leftarrow> cc. of_int n / of_int t * 100 * weight_of c) \<and>
         (\<Sum>(c, n) \<leftarrow> cc. of_int n / of_int t * 100 * weight_of c)
           \<le> (of_int (sum_list (map snd cc)) / of_int t * 100 :: rat)"
  using assms(1)
proof (induction cc)
  case Nil
  then show ?case by simp
next
  case (Cons a cc)
  obtain c n where a: "a = (c, n)" by (cases a)
  from Cons.prems a have n: "0 \<le> n" by simp
  let ?x = "of_int n / of_int t * 100 :: rat"
  have x: "0 \<le> ?x" using n assms(2) by simp
  have "0 \<le> ?x * weight_of c"
    by (rule mult_nonneg_nonneg[OF x]) (simp add: weight_of_bounds)
  moreover have "?x * weight_of c \<le> ?x"
    by (rule mult_left_le[OF _ x]) (simp add: weight_of_bounds)
  moreover from Cons have "0 \<le> (\<Sum>(c, n) \<leftarrow> cc. of_int n / of_int t * 100 * weight_of c) \<and>
         (\<Sum>(c, n) \<leftarrow> cc. of_int n / of_int t * 100 * weight_of c)
           \<le> (of_int (sum_list (map snd cc)) / of_int t * 100 :: rat)"
    by simp
  ultimately show ?case using a by (simp add: add_divide_distrib distrib_right)
qed

lemma sum_list_nonneg_counts:
  "\<forall>(c, n) \<in> set cc. (0::int) \<le> n \<Longrightarrow> 0 \<le> sum_list (map snd cc)"
  by (induction cc) auto

lemma delegation_score_exact_bounds:
  assumes "\<forall>(c, n) \<in> set cc. 0 \<le> n"
  shows "0 \<le> compute_delegation_score id cc \<and> compute_delegation_score id cc \<le> 1"
proof (cases "sum_list (map snd cc) = 0")
  case True
  then show ?thesis by (simp add: compute_delegation_score_def)
next
  case False
  with sum_list_nonneg_counts[OF assms] have t: "0 < sum_list (map snd cc)" by simp
  from weighted_sum_bounds[OF assms t] t
  have "0 \<le> (\<Sum>(c, n) \<leftarrow> cc. of_int n / of_int (sum_list (map snd cc)) * 100 * weight_of c) \<and>
        (\<Sum>(c, n) \<leftarrow> cc. of_int n / of_int (sum_list (map snd cc)) * 100 * weight_of c) \<le> (100 :: rat)"
    by simp
  then show ?thesis using False
    by (simp add: compute_delegation_score_def Let_def foldl_add_weighted_exact)
qed

subsection \<open>Double arithmetic\<close>

text \<open>
  The eight roundings of \<^verbatim>\<open>compute_delegation_score({"exploration": 1, "planning": 23})\<close>:
  \<^verbatim>\<open>1 / 24\<close>, times 100, times the weight 1.0, added to 0; \<^verbatim>\<open>23 / 24\<close>, times 100, times the
  weight, added to the sum; the sum divided by 100.
\<close>

lemma dbl_1: "round_f64 (1 / 24) = 6004799503160661 / 144115188075855872"
  using round_f64_val[of "1 / 24" 57 6004799503160661] by simp

lemma dbl_2: "round_f64 (6004799503160661 / 144115188075855872 * 100) = 2345624805922133 / 562949953421312"
  using round_f64_val[of "6004799503160661 / 144115188075855872 * 100" 50 4691249611844266] by simp

lemma dbl_3: "round_f64 (2345624805922133 / 562949953421312) = 2345624805922133 / 562949953421312"
  using round_f64_val[of "2345624805922133 / 562949953421312" 50 4691249611844266] by simp

lemma dbl_4: "round_f64 (23 / 24) = 8631899285793451 / 9007199254740992"
  using round_f64_val[of "23 / 24" 53 8631899285793451] by simp

lemma dbl_5: "round_f64 (8631899285793451 / 9007199254740992 * 100) = 3371835658513067 / 35184372088832"
  using round_f64_val[of "8631899285793451 / 9007199254740992 * 100" 46 6743671317026134] by simp

lemma dbl_6: "round_f64 (3371835658513067 / 35184372088832) = 3371835658513067 / 35184372088832"
  using round_f64_val[of "3371835658513067 / 35184372088832" 46 6743671317026134] by simp

lemma dbl_7: "round_f64 (2345624805922133 / 562949953421312 + 3371835658513067 / 35184372088832)
    = 7036874417766401 / 70368744177664"
  using round_f64_val[of "2345624805922133 / 562949953421312 + 3371835658513067 / 35184372088832"
      46 7036874417766401] by simp

lemma dbl_8: "round_f64 (7036874417766401 / 70368744177664 / 100) = 4503599627370497 / 4503599627370496"
  using round_f64_val[of "7036874417766401 / 70368744177664 / 100" 52 4503599627370497] by simp

text \<open>
  C10. The claim bounds the score by 1, as the comment \<^verbatim>\<open>Normalize to 0-1\<close> of the code does.
  In exact arithmetic the score of one exploration use and 23 planning uses is 1; the
  doubles of the code give \<open>1 + 2^-52\<close>, which Python prints as \<^verbatim>\<open>1.0000000000000002\<close>.
\<close>

theorem delegation_score_double_exceeds_one:
  "compute_delegation_score round_f64 [(''exploration'', 1), (''planning'', 23)]
     = 4503599627370497 / 4503599627370496 \<and>
   1 < compute_delegation_score round_f64 [(''exploration'', 1), (''planning'', 23)] \<and>
   compute_delegation_score id [(''exploration'', 1), (''planning'', 23)] = 1"
proof -
  have w: "weight_of ''exploration'' = 1" "weight_of ''planning'' = 1"
    by (simp_all add: weight_of_def DELEGATION_WEIGHTS_def)
  have t: "sum_list (map snd [(''exploration'', 1::int), (''planning'', 23)]) = 24" by simp
  have s1: "add_weighted round_f64 24 0 (''exploration'', 1) = 2345624805922133 / 562949953421312"
    unfolding add_weighted_def Let_def fst_conv snd_conv w of_int_1 of_int_numeral
      dbl_1 dbl_2 mult_1_right dbl_3 add_0_left ..
  have s2: "add_weighted round_f64 24 (2345624805922133 / 562949953421312) (''planning'', 23)
      = 7036874417766401 / 70368744177664"
    unfolding add_weighted_def Let_def fst_conv snd_conv w of_int_1 of_int_numeral
      dbl_4 dbl_5 mult_1_right dbl_6 dbl_7 ..
  have r: "compute_delegation_score round_f64 [(''exploration'', 1), (''planning'', 23)]
     = 4503599627370497 / 4503599627370496"
    unfolding compute_delegation_score_def t Let_def foldl.simps s1 s2 dbl_8 by simp
  have e: "compute_delegation_score id [(''exploration'', 1), (''planning'', 23)] = 1"
    by (simp add: compute_delegation_score_def add_weighted_def w)
  from r e show ?thesis by simp
qed

end
